(* ===== verification/LOB_Prelude.thy ===== *)
theory LOB_Prelude
  imports Main "HOL-Library.Word" "HOL-Library.Monad_Syntax"
begin

text \<open>
  Shared vocabulary of the limit-order-book development: the machine types of the C++
  sources (\<open>uint32_t\<close>, \<open>uint64_t\<close>, \<open>size_t\<close> as words of their width), pointers into
  the memory pool's block as slot numbers, and the generic facts on words, lists and
  options that the component theories share.  The collection \<open>lob_simps\<close> gathers the
  rewrite rules that the component proofs pass to \<open>simp\<close> together.
\<close>

type_synonym u32 = "32 word"
type_synonym u64 = "64 word"
type_synonym size_t = "64 word"

text \<open>
  A pointer \<open>Order*\<close> into the pool is \<open>block + i\<close>; the model names it by its slot
  number \<open>i\<close>.  A nullable pointer is a \<open>slot option\<close>, \<open>None\<close> standing for \<open>nullptr\<close>.
\<close>

type_synonym slot = nat

text \<open>
  The C++ exceptions the program can raise and does not catch: \<open>std::stoull\<close> throws
  \<open>std::invalid_argument\<close> and \<open>std::out_of_range\<close>, \<open>::operator new[]\<close> throws
  \<open>std::bad_alloc\<close>.  A computation that may throw returns \<open>exn + 'a\<close>.
\<close>

datatype exn = invalid_argument | out_of_range | bad_alloc

text \<open>\<open>PTRDIFF_MAX\<close> on LP64: no object, hence no allocation, is larger.\<close>

definition PTRDIFF_MAX :: nat where
  "PTRDIFF_MAX = 2 ^ 63 - 1"

named_theorems lob_simps "rewrite rules shared by the order-book proofs"

subsection \<open>Unsigned subtraction of a minimum\<close>

text \<open>
  The matching loop computes \<open>t = std::min(a, b)\<close> and then \<open>a -= t\<close> and \<open>b -= t\<close> on
  \<open>uint32_t\<close>.  Neither subtraction wraps, and the result is zero exactly on the side
  that was the smaller one.
\<close>

lemma unat_sub_min_left [lob_simps]:
  "unat ((a::'a::len word) - min a b) = unat a - unat (min a b)"
  by (simp add: unat_sub min_def)

lemma unat_sub_min_right [lob_simps]:
  "unat ((b::'a::len word) - min a b) = unat b - unat (min a b)"
  by (simp add: unat_sub min_def)

lemma sub_min_left_eq_0 [lob_simps]:
  "((a::'a::len word) - min a b = 0) \<longleftrightarrow> a \<le> b"
  by (auto simp: min_def)

lemma sub_min_right_eq_0 [lob_simps]:
  "((b::'a::len word) - min a b = 0) \<longleftrightarrow> b \<le> a"
  by (auto simp: min_def)

lemma unat_min_word [lob_simps]:
  "unat (min (a::'a::len word) b) = min (unat a) (unat b)"
  by (simp add: min_def word_le_nat_alt)

lemma word_pos_sub_min:
  "0 < (a::'a::len word) \<Longrightarrow> 0 < min a b \<or> b = 0"
  by (auto simp: min_def word_gt_0)

subsection \<open>Lists\<close>

lemma distinct_set_eq_card:
  "distinct xs \<Longrightarrow> set xs = A \<Longrightarrow> card A = length xs"
  using distinct_card by blast

lemma remove1_split_distinct:
  "distinct (xs @ y # ys) \<Longrightarrow> remove1 y (xs @ y # ys) = xs @ ys"
  by (induction xs) auto

subsection \<open>Options\<close>

lemma bind_Some_fst [simp]:
  "Option.bind m (\<lambda>(x, y). Some (f x)) = map_option (\<lambda>r. f (fst r)) m"
  by (cases m) auto

lemma bind_eq_Some_split:
  "(Option.bind m f = Some y) \<longleftrightarrow> (\<exists>x. m = Some x \<and> f x = Some y)"
  by (cases m) auto

end
