(* ===== verification/Order_Record.thy ===== *)
theory Order_Record
  imports LOB_Prelude
begin

text \<open>
  The order record of \<open>src/src/Order.h\<close>: the enumerations \<open>Order::Side\<close> and
  \<open>Order::Type\<close> as datatypes with the source's constructors, and the plain fields of
  \<open>struct Order\<close> as a record.  The price is a \<open>double\<close> in the source; the model keeps
  it as any linearly ordered type \<open>'p\<close>, which is what \<open>std::map<double, \<dots>>\<close> relies
  on (NaN prices, for which \<open>std::less<double>\<close> is no strict weak order, are outside
  the model).  The field \<open>next_free\<close> is the memory pool's link and lives in the pool's
  split heap (theory \<open>Memory_Pool\<close>); \<open>id\<close> is called \<open>order_id\<close>, since \<open>id\<close>
  is the identity function of HOL.
\<close>

datatype side = BUY | SELL

datatype order_type = MARKET | LIMIT

record 'p Order =
  order_id :: u64
  timestamp :: u64
  price :: 'p
  quantity :: u32
  side :: side
  otype :: order_type

text \<open>The constructor \<open>Order(_id, _timestamp, _price, _quantity, _side, _type)\<close>.\<close>

definition make_Order :: "u64 \<Rightarrow> u64 \<Rightarrow> 'p \<Rightarrow> u32 \<Rightarrow> side \<Rightarrow> order_type \<Rightarrow> 'p Order" where
  "make_Order i ts p q sd ty =
     \<lparr>order_id = i, timestamp = ts, price = p, quantity = q, side = sd, otype = ty\<rparr>"

lemma make_Order_sel [simp]:
  "order_id (make_Order i ts p q sd ty) = i"
  "timestamp (make_Order i ts p q sd ty) = ts"
  "price (make_Order i ts p q sd ty) = p"
  "quantity (make_Order i ts p q sd ty) = q"
  "side (make_Order i ts p q sd ty) = sd"
  "otype (make_Order i ts p q sd ty) = ty"
  by (simp_all add: make_Order_def)

end
