(* ===== verification/Memory_Pool.thy ===== *)
theory Memory_Pool
  imports Order_Record
begin

text \<open>
  The slab allocator of \<open>src/src/MemoryPool.h\<close> and \<open>src/src/MemoryPool.cpp\<close>.
  The pool owns one block of \<open>capacity\<close> order slots.  Its memory is a split heap, one
  map per field group: \<open>heap\<close> holds the order fields of each slot (\<open>None\<close> for a
  slot never constructed) and \<open>next_free\<close> holds the intrusive free-list link that
  \<open>struct Order\<close> carries.  \<open>free_list\<close> is the head pointer \<open>free_list_\<close>.

  The constructor first obtains a block of \<open>capacity * sizeof(Order)\<close> bytes, computed
  in \<open>size_t\<close>, from \<open>::operator new[]\<close>, which throws \<open>std::bad_alloc\<close> when the
  system cannot provide it.  How much memory the system provides is outside the program:
  it is the parameter \<open>mem\<close> (bytes available), and no request above \<open>PTRDIFF_MAX\<close>
  succeeds (libstdc++ passes it to \<open>malloc\<close>, which refuses it).  The constructor then
  threads every slot onto the free list, writing the link field of slot \<open>i\<close> in
  iteration \<open>i\<close>; a write past the end of the block is undefined behaviour, \<open>None\<close>.
  \<open>sizeof(Order)\<close> is 48 on the LP64 ABI the code targets (three 8-byte fields, three
  4-byte fields padded to 8, and the 8-byte link).

  The lemmas show that the linked free list refines a stack of slot numbers
  (\<open>pool_abs\<close>), that \<open>allocate\<close> pops and \<open>deallocate\<close> pushes, that the pool
  invariant (every slot is free or owned, never both, never twice) is kept, that
  releasing a slot that is already free corrupts the list, and exactly when the
  constructor throws, writes past its block, or builds a pool.
\<close>

definition sizeof_Order :: nat where
  "sizeof_Order = 48"

record 'p MemoryPool =
  heap :: "slot \<Rightarrow> 'p Order option"
  next_free :: "slot \<Rightarrow> slot option"
  free_list :: "slot option"
  capacity :: size_t

subsection \<open>Operations\<close>

text \<open>
  The constructor's loop \<open>for (i = 0; i < capacity; ++i)\<close>: after \<open>Suc i\<close> iterations
  the links of slots \<open>0..i\<close> are written, the last write being slot \<open>i\<close>, whose bytes
  \<open>[48 i, 48 (i + 1))\<close> must lie within the block of \<open>bytes\<close> bytes.
\<close>

fun ctor_loop ::
  "nat \<Rightarrow> nat \<Rightarrow> (slot \<Rightarrow> slot option) \<Rightarrow> slot option \<Rightarrow> ((slot \<Rightarrow> slot option) \<times> slot option) option"
where
  "ctor_loop bytes 0 nxt fl = Some (nxt, fl)"
| "ctor_loop bytes (Suc i) nxt fl = do {
     (nxt', fl') \<leftarrow> ctor_loop bytes i nxt fl;
     if (i + 1) * sizeof_Order \<le> bytes then Some (nxt'(i := fl'), Some i) else None
   }"

text \<open>\<open>::operator new[](n)\<close> with \<open>mem\<close> bytes available: it returns a block or throws.\<close>

definition operator_new :: "nat \<Rightarrow> nat \<Rightarrow> bool" where
  "operator_new mem n \<longleftrightarrow> n \<le> mem \<and> n \<le> PTRDIFF_MAX"

definition MemoryPool_ctor :: "nat \<Rightarrow> size_t \<Rightarrow> exn + 'p MemoryPool option" where
  "MemoryPool_ctor mem cap =
     (let bytes = unat (cap * of_nat sizeof_Order)
      in if \<not> operator_new mem bytes then Inl bad_alloc
         else Inr (map_option (\<lambda>(nxt, fl). \<lparr>heap = Map.empty, next_free = nxt, free_list = fl, capacity = cap\<rparr>)
                    (ctor_loop bytes (unat cap) (\<lambda>_. None) None)))"

definition allocate :: "'p MemoryPool \<Rightarrow> 'p MemoryPool \<times> slot option" where
  "allocate p =
     (case free_list p of
        None \<Rightarrow> (p, None)
      | Some obj \<Rightarrow>
          (p\<lparr>free_list := next_free p obj, next_free := (next_free p)(obj := None)\<rparr>, Some obj))"

definition deallocate :: "slot option \<Rightarrow> 'p MemoryPool \<Rightarrow> 'p MemoryPool" where
  "deallocate order p =
     (case order of
        None \<Rightarrow> p
      | Some obj \<Rightarrow> p\<lparr>next_free := (next_free p)(obj := free_list p), free_list := Some obj\<rparr>)"

text \<open>
  The destructor \<open>~MemoryPool\<close> frees the block (no slot can be read any more) and sets
  \<open>free_list_\<close> to \<open>nullptr\<close>.
\<close>

definition MemoryPool_dtor :: "'p MemoryPool \<Rightarrow> 'p MemoryPool" where
  "MemoryPool_dtor p = p\<lparr>heap := Map.empty, free_list := None\<rparr>"

subsection \<open>The free list as a stack\<close>

text \<open>
  \<open>free_chain nxt h xs\<close>: following the links from head \<open>h\<close> visits exactly the slots
  \<open>xs\<close> and ends in \<open>nullptr\<close>.
\<close>

fun free_chain :: "(slot \<Rightarrow> slot option) \<Rightarrow> slot option \<Rightarrow> slot list \<Rightarrow> bool" where
  "free_chain nxt h [] = (h = None)"
| "free_chain nxt h (s # ss) = (h = Some s \<and> free_chain nxt (nxt s) ss)"

definition pool_abs :: "'p MemoryPool \<Rightarrow> slot list \<Rightarrow> bool" where
  "pool_abs p fl \<longleftrightarrow> free_chain (next_free p) (free_list p) fl"

text \<open>
  The pool invariant relative to the slots the client owns: the free slots and the owned
  ones are all different and together are exactly the block's slots.
\<close>

definition pool_inv :: "'p MemoryPool \<Rightarrow> slot list \<Rightarrow> bool" where
  "pool_inv p owned \<longleftrightarrow>
     (\<exists>fl. pool_abs p fl \<and> distinct (fl @ owned) \<and> set (fl @ owned) = {..<unat (capacity p)})"

subsection \<open>Lemmas on chains\<close>

lemma free_chain_upd [simp]:
  "x \<notin> set xs \<Longrightarrow> free_chain (nxt(x := v)) h xs = free_chain nxt h xs"
  by (induction xs arbitrary: h) auto

lemma free_chain_det:
  "free_chain nxt h xs \<Longrightarrow> free_chain nxt h ys \<Longrightarrow> xs = ys"
proof (induction xs arbitrary: h ys)
  case Nil
  then show ?case by (cases ys) auto
next
  case (Cons x xs)
  then show ?case by (cases ys) auto
qed

lemma free_chain_append:
  "free_chain nxt h (xs @ ys) \<Longrightarrow> \<exists>h'. free_chain nxt h' ys"
  by (induction xs arbitrary: h) auto

text \<open>A finite chain never meets the same slot twice: a second visit would repeat forever.\<close>

lemma free_chain_distinct:
  assumes "free_chain nxt h xs"
  shows "distinct xs"
  using assms
proof (induction xs arbitrary: h)
  case Nil
  then show ?case by simp
next
  case (Cons x xs)
  then have tail: "free_chain nxt (nxt x) xs" by simp
  have "x \<notin> set xs"
  proof
    assume "x \<in> set xs"
    then obtain us vs where xs: "xs = us @ x # vs" by (meson split_list)
    with tail obtain h' where "free_chain nxt h' (x # vs)"
      using free_chain_append by blast
    then have "free_chain nxt (nxt x) vs" by simp
    from free_chain_det [OF tail this] xs show False by simp
  qed
  with Cons.IH [OF tail] show ?case by simp
qed

subsection \<open>The pool against a stack of free slots\<close>


lemma pool_abs_unique: "pool_abs p xs \<Longrightarrow> pool_abs p ys \<Longrightarrow> xs = ys"
  unfolding pool_abs_def by (rule free_chain_det)

lemma allocate_refines:
  assumes "pool_abs p fl"
  shows "pool_abs (fst (allocate p)) (tl fl) \<and> snd (allocate p) = (case fl of [] \<Rightarrow> None | s # _ \<Rightarrow> Some s)"
proof (cases fl)
  case Nil
  with assms show ?thesis by (simp add: pool_abs_def allocate_def)
next
  case (Cons s ss)
  with assms have "s \<notin> set ss" using free_chain_distinct unfolding pool_abs_def by fastforce
  with assms Cons show ?thesis by (simp add: pool_abs_def allocate_def)
qed

lemma deallocate_refines:
  "pool_abs p fl \<Longrightarrow> s \<notin> set fl \<Longrightarrow> pool_abs (deallocate (Some s) p) (s # fl)"
  by (simp add: pool_abs_def deallocate_def)

lemma deallocate_twice_breaks:
  assumes "pool_abs p fl" and "s \<in> set fl"
  shows "\<not> pool_abs (deallocate (Some s) p) fl'"
proof
  assume "pool_abs (deallocate (Some s) p) fl'"
  then have ch0: "free_chain ((next_free p)(s := free_list p)) (Some s) fl'"
    by (simp add: pool_abs_def deallocate_def)
  then obtain rest where fl': "fl' = s # rest"
    and ch: "free_chain ((next_free p)(s := free_list p)) (free_list p) rest"
    by (cases fl') auto
  from free_chain_distinct [OF ch0] fl' have "s \<notin> set rest" by simp
  with ch have "free_chain (next_free p) (free_list p) rest" by simp
  with assms(1) have "rest = fl" unfolding pool_abs_def using free_chain_det by blast
  with assms(2) \<open>s \<notin> set rest\<close> show False by simp
qed

lemma allocate_inv:
  assumes "pool_inv p owned" and "allocate p = (p', Some s)"
  shows "pool_inv p' (s # owned) \<and> s \<notin> set owned \<and> s < unat (capacity p)"
proof -
  from assms(1) obtain fl where abs: "pool_abs p fl" and d: "distinct (fl @ owned)"
    and cov: "set (fl @ owned) = {..<unat (capacity p)}" by (auto simp: pool_inv_def)
  from allocate_refines [OF abs] assms(2) obtain ss where fl: "fl = s # ss" and abs': "pool_abs p' ss"
    by (cases fl) auto
  have cap: "capacity p' = capacity p"
    using assms(2) by (auto simp: allocate_def split: option.splits)
  have "pool_inv p' (s # owned)"
    unfolding pool_inv_def using abs' d cov fl cap by (intro exI [of _ ss]) auto
  with d cov fl show ?thesis by auto
qed

lemma allocate_None:
  "allocate p = (p', None) \<longleftrightarrow> p' = p \<and> free_list p = None"
  by (auto simp: allocate_def split: option.splits)

lemma allocate_exhausted:
  "pool_inv p owned \<Longrightarrow> allocate p = (p', None) \<Longrightarrow> length owned = unat (capacity p)"
  unfolding pool_inv_def allocate_None pool_abs_def
  by (metis append_Nil card_lessThan distinct_card free_chain.simps(1) free_chain_det)

lemma deallocate_inv:
  assumes "pool_inv p (s # owned)"
  shows "pool_inv (deallocate (Some s) p) owned"
proof -
  from assms obtain fl where abs: "pool_abs p fl" and d: "distinct (fl @ s # owned)"
    and cov: "set (fl @ s # owned) = {..<unat (capacity p)}" by (auto simp: pool_inv_def)
  then have "pool_abs (deallocate (Some s) p) (s # fl)" by (intro deallocate_refines) auto
  moreover have "capacity (deallocate (Some s) p) = capacity p" by (simp add: deallocate_def)
  ultimately show ?thesis using d cov unfolding pool_inv_def by (rule_tac x = "s # fl" in exI) auto
qed

lemma pool_ops_heap [simp]:
  "heap (fst (allocate p)) = heap p"
  "heap (deallocate r p) = heap p"
  "capacity (fst (allocate p)) = capacity p"
  "capacity (deallocate r p) = capacity p"
  by (auto simp: allocate_def deallocate_def split: option.splits)

lemma ctor_loop_Some:
  "n * sizeof_Order \<le> bytes \<Longrightarrow>
   \<exists>nxt' h. ctor_loop bytes n nxt None = Some (nxt', h) \<and> free_chain nxt' h (rev [0..<n])"
proof (induction n)
  case 0
  then show ?case by simp
next
  case (Suc n)
  then obtain nxt' h where run: "ctor_loop bytes n nxt None = Some (nxt', h)"
    and ch: "free_chain nxt' h (rev [0..<n])" by (auto simp: sizeof_Order_def)
  have "n \<notin> set (rev [0..<n])" by simp
  with ch have "free_chain (nxt'(n := h)) (Some n) (rev [0..<Suc n])" by simp
  with run Suc.prems show ?case by simp
qed

lemma ctor_loop_None:
  "bytes < n * sizeof_Order \<Longrightarrow> ctor_loop bytes n nxt fl = None"
proof (induction n)
  case 0
  then show ?case by simp
next
  case (Suc n)
  show ?case
  proof (cases "ctor_loop bytes n nxt fl")
    case None
    then show ?thesis by simp
  next
    case (Some r)
    with Suc.prems show ?thesis by (cases r) simp
  qed
qed

lemma unat_cap_bytes:
  "unat (cap * of_nat sizeof_Order :: size_t) = (unat cap * sizeof_Order) mod 2 ^ 64"
  by (simp add: unat_mult_lem unat_word_ariths sizeof_Order_def)

lemma bytes_wrap_lt:
  assumes "2 ^ 64 \<le> unat cap * sizeof_Order"
  shows "unat (cap * of_nat sizeof_Order :: size_t) < unat cap * sizeof_Order"
proof -
  have "(unat cap * sizeof_Order) mod 2 ^ 64 < (2::nat) ^ 64" by simp
  with assms show ?thesis by (simp add: unat_cap_bytes)
qed

lemma bytes_no_wrap:
  "unat cap * sizeof_Order < 2 ^ 64 \<Longrightarrow>
   unat (cap * of_nat sizeof_Order :: size_t) = unat cap * sizeof_Order"
  by (simp add: unat_cap_bytes)

theorem MemoryPool_ctor_inv:
  assumes "MemoryPool_ctor mem cap = Inr (Some p)"
  shows "pool_inv p [] \<and> pool_abs p (rev [0..<unat cap]) \<and> capacity p = cap \<and> heap p = Map.empty"
proof -
  from assms have "ctor_loop (unat (cap * of_nat sizeof_Order)) (unat cap) (\<lambda>_. None) None \<noteq> None"
    by (auto simp: MemoryPool_ctor_def Let_def split: if_splits)
  then have "\<not> unat (cap * of_nat sizeof_Order) < unat cap * sizeof_Order"
    using ctor_loop_None by metis
  then have "unat cap * sizeof_Order \<le> unat (cap * of_nat sizeof_Order)"
    by simp
  then obtain nxt h
    where run: "ctor_loop (unat (cap * of_nat sizeof_Order)) (unat cap) (\<lambda>_. None) None = Some (nxt, h)"
      and ch: "free_chain nxt h (rev [0..<unat cap])"
    using ctor_loop_Some by blast
  from assms run have p: "p = \<lparr>heap = Map.empty, next_free = nxt, free_list = h, capacity = cap\<rparr>"
    by (simp add: MemoryPool_ctor_def Let_def split: if_splits)
  have "pool_abs p (rev [0..<unat cap])" using ch by (simp add: p pool_abs_def)
  moreover have "set (rev [0..<unat cap]) = {..<unat (capacity p)}" by (auto simp: p)
  ultimately show ?thesis unfolding pool_inv_def by (auto simp: p)
qed

text \<open>The pool that \<open>MemoryPool(3)\<close> builds, used by the witnesses below.\<close>

definition P3 :: "int MemoryPool" where
  "P3 = \<lparr>heap = Map.empty, next_free = ((\<lambda>_. None)(0 := None, 1 := Some 0, 2 := Some 1)),
      free_list = Some 2, capacity = 3\<rparr>"

lemma MemoryPool_ctor_3: "MemoryPool_ctor mem 3 = (if 144 \<le> mem then Inr (Some P3) else Inl bad_alloc)"
proof -
  have b: "unat (3 * of_nat sizeof_Order :: size_t) = 144" by (simp add: sizeof_Order_def)
  have l: "ctor_loop 144 3 (\<lambda>_. None) None =
      Some ((\<lambda>_. None)(0 := None, 1 := Some 0, 2 := Some 1), Some 2)"
    by (simp add: eval_nat_numeral sizeof_Order_def fun_eq_iff)
  show ?thesis by (simp add: MemoryPool_ctor_def operator_new_def PTRDIFF_MAX_def b l P3_def)
qed

lemma MemoryPool_ctor_P3: "MemoryPool_ctor PTRDIFF_MAX 3 = Inr (Some P3)"
  by (simp add: MemoryPool_ctor_3 PTRDIFF_MAX_def)

lemma pool_inv_heap [simp]: "pool_inv (p\<lparr>heap := h\<rparr>) xs = pool_inv p xs"
  by (simp add: pool_inv_def pool_abs_def)

lemma pool_inv_cong:
  assumes "set xs = set ys" and "length xs = length ys"
  shows "pool_inv p xs = pool_inv p ys"
proof -
  have "distinct xs = distinct ys"
    using assms by (metis card_distinct distinct_card)
  then have "\<And>fl. distinct (fl @ xs) = distinct (fl @ ys)"
    using assms(1) by simp
  with assms show ?thesis unfolding pool_inv_def by auto
qed

text \<open>
  Rewriting the link of an owned slot (placement construction sets \<open>next_free\<close> to
  \<open>nullptr\<close>) leaves the free chain alone, and the owned slots never outnumber the block.
\<close>

lemma pool_inv_next_free_owned:
  assumes "x \<in> set owned" and "next_free p' = (next_free p)(x := v)"
    and "free_list p' = free_list p" and "capacity p' = capacity p"
  shows "pool_inv p' owned = pool_inv p owned"
proof -
  have "free_chain ((next_free p)(x := v)) (free_list p) fl = free_chain (next_free p) (free_list p) fl"
    if "distinct (fl @ owned)" for fl
  proof -
    have "x \<notin> set fl" using that assms(1) by auto
    then show ?thesis by simp
  qed
  then show ?thesis using assms(2-) unfolding pool_inv_def pool_abs_def by auto
qed

lemma pool_inv_length:
  "pool_inv p owned \<Longrightarrow> length owned \<le> unat (capacity p)"
proof -
  assume "pool_inv p owned"
  then obtain fl where d: "distinct (fl @ owned)" and s: "set (fl @ owned) = {..<unat (capacity p)}"
    by (auto simp: pool_inv_def)
  then have "length (fl @ owned) = unat (capacity p)" using distinct_card by fastforce
  then show ?thesis by simp
qed

text \<open>
  When the block is obtained and \<open>capacity * sizeof(Order)\<close> wraps, the loop writes past
  the block; when it does not wrap, the loop threads all slots.
\<close>

lemma MemoryPool_ctor_wrap:
  assumes "2 ^ 64 \<le> unat cap * sizeof_Order" and "operator_new mem (unat (cap * of_nat sizeof_Order))"
  shows "MemoryPool_ctor mem cap = Inr None"
proof -
  from assms(1) have "unat (cap * of_nat sizeof_Order) < unat cap * sizeof_Order"
    by (intro bytes_wrap_lt) simp
  then have "ctor_loop (unat (cap * of_nat sizeof_Order)) (unat cap) (\<lambda>_. None) None = None"
    by (rule ctor_loop_None)
  then show ?thesis using assms(2) by (simp add: MemoryPool_ctor_def)
qed

lemma MemoryPool_ctor_no_wrap:
  assumes "unat cap * sizeof_Order < 2 ^ 64" and "operator_new mem (unat cap * sizeof_Order)"
  shows "\<exists>p. MemoryPool_ctor mem cap = Inr (Some p)"
proof -
  from assms(1) have e: "unat (cap * of_nat sizeof_Order) = unat cap * sizeof_Order"
    by (rule bytes_no_wrap)
  from assms(1) have "unat cap * sizeof_Order \<le> unat (cap * of_nat sizeof_Order)"
    by (simp add: bytes_no_wrap)
  then obtain nxt h
    where "ctor_loop (unat (cap * of_nat sizeof_Order)) (unat cap) (\<lambda>_. None) None = Some (nxt, h)"
    using ctor_loop_Some by blast
  then show ?thesis using assms(2) e by (simp add: MemoryPool_ctor_def)
qed

lemma operator_new_no_wrap:
  "operator_new mem (unat cap * sizeof_Order) \<Longrightarrow> unat cap * sizeof_Order < 2 ^ 64"
  by (simp add: operator_new_def PTRDIFF_MAX_def)

lemma MemoryPool_ctor_fits:
  "operator_new mem (unat cap * sizeof_Order) \<Longrightarrow> \<exists>p. MemoryPool_ctor mem cap = Inr (Some p)"
  using MemoryPool_ctor_no_wrap operator_new_no_wrap by blast

subsection \<open>Properties of the allocator\<close>

text \<open>
  C6: the constructor throws \<open>std::bad_alloc\<close> exactly when \<open>::operator new[]\<close> cannot
  provide the block of \<open>capacity * sizeof(Order)\<close> bytes as computed in \<open>size_t\<close>; it
  writes past the block (undefined behaviour) exactly when that block is provided but the
  product wrapped around, so that the block is smaller than the slots the loop threads; and
  it builds a pool exactly when the true block size is available and does not wrap.
\<close>

theorem MemoryPool_ctor_outcome:
  "((MemoryPool_ctor mem cap :: exn + 'p MemoryPool option) = Inl bad_alloc \<longleftrightarrow> \<not> operator_new mem (unat (cap * of_nat sizeof_Order))) \<and>
   ((MemoryPool_ctor mem cap :: exn + 'p MemoryPool option) = Inr None \<longleftrightarrow>
      operator_new mem (unat (cap * of_nat sizeof_Order)) \<and> 2 ^ 64 \<le> unat cap * sizeof_Order) \<and>
   ((\<exists>p :: 'p MemoryPool. MemoryPool_ctor mem cap = Inr (Some p)) \<longleftrightarrow>
      operator_new mem (unat cap * sizeof_Order) \<and> unat cap * sizeof_Order < 2 ^ 64)"
proof (cases "operator_new mem (unat (cap * of_nat sizeof_Order))")
  case False
  then show ?thesis
    using bytes_no_wrap [of cap] by (auto simp: MemoryPool_ctor_def)
next
  case ok: True
  show ?thesis
  proof (cases "unat cap * sizeof_Order < 2 ^ 64")
    case True
    then have on: "operator_new mem (unat cap * sizeof_Order)" using ok bytes_no_wrap [OF True] by simp
    then obtain p :: "'p MemoryPool" where pe: "MemoryPool_ctor mem cap = Inr (Some p)"
      using MemoryPool_ctor_no_wrap [OF True] by blast
    then show ?thesis using True ok on by simp
  next
    case False
    then have pe: "(MemoryPool_ctor mem cap :: exn + 'p MemoryPool option) = Inr None" using MemoryPool_ctor_wrap ok by (simp add: not_less)
    then show ?thesis using False ok by simp
  qed
qed

theorem MemoryPool_ctor_outcome_witness:
  "MemoryPool_ctor PTRDIFF_MAX (2 ^ 60) = (Inr None :: exn + int MemoryPool option) \<and>
   MemoryPool_ctor PTRDIFF_MAX 3 = (Inr (Some P3) :: exn + int MemoryPool option) \<and>
   MemoryPool_ctor PTRDIFF_MAX (- 1) = (Inl bad_alloc :: exn + int MemoryPool option)"
proof -
  have a: "operator_new PTRDIFF_MAX (unat ((2 ^ 60 :: size_t) * of_nat sizeof_Order)) \<and>
      2 ^ 64 \<le> unat (2 ^ 60 :: size_t) * sizeof_Order"
    by (simp add: operator_new_def PTRDIFF_MAX_def sizeof_Order_def)
  have c: "\<not> operator_new PTRDIFF_MAX (unat ((- 1 :: size_t) * of_nat sizeof_Order))"
    by (simp add: operator_new_def PTRDIFF_MAX_def sizeof_Order_def)
  have "MemoryPool_ctor PTRDIFF_MAX (2 ^ 60) = (Inr None :: exn + int MemoryPool option)"
    using MemoryPool_ctor_outcome [of PTRDIFF_MAX "2 ^ 60"] a by blast
  moreover have "MemoryPool_ctor PTRDIFF_MAX (- 1) = (Inl bad_alloc :: exn + int MemoryPool option)"
    using MemoryPool_ctor_outcome [of PTRDIFF_MAX "- 1"] c by blast
  moreover have "MemoryPool_ctor PTRDIFF_MAX 3 = (Inr (Some P3) :: exn + int MemoryPool option)"
    by (rule MemoryPool_ctor_P3)
  ultimately show ?thesis by blast
qed

text \<open>
  C5: releasing a slot that is already on the free list (a double free) leaves a free
  list that is no finite chain: the slot now links to the old head, from which the
  same slot is reached again.
\<close>

theorem deallocate_double_free:
  assumes "pool_abs p fl" and "s \<in> set fl"
  shows "\<nexists>fl'. pool_abs (deallocate (Some s) p) fl'"
  using deallocate_twice_breaks [OF assms] by blast

theorem deallocate_double_free_witness:
  "pool_abs P3 [2, 1, 0] \<and> (1::nat) \<in> set [2, 1, 0] \<and> (\<nexists>fl'. pool_abs (deallocate (Some 1) P3) fl')"
proof -
  have a: "pool_abs P3 [2, 1, 0]" by (simp add: P3_def pool_abs_def)
  have m: "(1::nat) \<in> set [2, 1, 0]" by simp
  from deallocate_double_free [OF a m] a m show ?thesis by blast
qed

text \<open>
  C4: the intrusive free list refines a stack of slot numbers: \<open>allocate\<close> returns the
  top of the stack and leaves its tail (or reports exhaustion on the empty stack and
  changes nothing), \<open>deallocate\<close> of a slot not on the stack pushes it, and
  \<open>deallocate(nullptr)\<close> does nothing.
\<close>

theorem pool_stack_refinement:
  assumes "pool_abs p fl"
  shows "(case fl of
            [] \<Rightarrow> allocate p = (p, None)
          | s # fl' \<Rightarrow> snd (allocate p) = Some s \<and> pool_abs (fst (allocate p)) fl') \<and>
         (\<forall>s. s \<notin> set fl \<longrightarrow> pool_abs (deallocate (Some s) p) (s # fl)) \<and>
         deallocate None p = p"
proof -
  have "allocate p = (p, None)" if "fl = []"
    using assms that by (simp add: pool_abs_def allocate_def)
  moreover have "\<forall>s. s \<notin> set fl \<longrightarrow> pool_abs (deallocate (Some s) p) (s # fl)"
    using assms deallocate_refines by blast
  moreover have "deallocate None p = p" by (simp add: deallocate_def)
  ultimately show ?thesis using allocate_refines [OF assms] by (simp split: list.splits)
qed

theorem pool_stack_refinement_witness:
  "pool_abs P3 [2, 1, 0] \<and> snd (allocate P3) = Some 2 \<and> pool_abs (fst (allocate P3)) [1, 0]"
proof -
  have a: "pool_abs P3 [2, 1, 0]" by (simp add: P3_def pool_abs_def)
  from pool_stack_refinement [OF a] have "snd (allocate P3) = Some 2 \<and> pool_abs (fst (allocate P3)) [1, 0]"
    by (simp only: list.case)
  with a show ?thesis by blast
qed

text \<open>
  C11: releasing the slot just allocated restores the pool exactly, links and heap
  included; when the pool is exhausted both calls leave it unchanged.
\<close>

theorem allocate_deallocate_roundtrip:
  "deallocate (snd (allocate p)) (fst (allocate p)) = p"
  by (simp add: allocate_def deallocate_def split: option.split)

text \<open>After the destructor the pool hands out no slot and no slot can be read.\<close>

lemma MemoryPool_dtor_allocate:
  "allocate (MemoryPool_dtor p) = (MemoryPool_dtor p, None) \<and> heap (MemoryPool_dtor p) s = None"
  by (simp add: allocate_def MemoryPool_dtor_def)

end
