(* ===== verification/Price_Levels.thy ===== *)
theory Price_Levels
  imports LOB_Prelude
begin

text \<open>
  One side of the book in \<open>src/src/OrderBook.h\<close>:
  \<open>std::map<double, std::deque<Order*>, Cmp>\<close>, with \<open>Cmp = std::greater<double>\<close>
  for \<open>bids_\<close> and \<open>std::less<double>\<close> for \<open>asks_\<close>.  A \<open>std::map\<close> is an ordered
  dictionary; the model is the association list of its nodes in iteration order, so
  \<open>begin()\<close> is the head and the keys are strictly sorted by the comparator \<open>lt\<close>.  Each
  node's \<open>std::deque<Order*>\<close> is a list of slots, front first.  Two keys are equivalent
  for \<open>std::map\<close> when neither is \<open>lt\<close> the other; for \<open><\<close> and \<open>>\<close> on a linear order
  this is equality, which the operations test directly.

  The operations are those the order book applies: \<open>m[k].push_back(s)\<close>
  (\<open>lv_push_back\<close>), \<open>begin()->second.pop_front()\<close> (\<open>lv_pop_front\<close>), erasing
  \<open>begin()\<close> when its deque became empty (\<open>lv_erase_front_if_empty\<close>), \<open>find(k)\<close>
  (\<open>lv_find\<close>), writing a node's deque (\<open>lv_set\<close>) and \<open>erase(it)\<close> (\<open>lv_erase\<close>).
  \<open>lv_slots\<close> lists all resting slots in price-time priority.
\<close>

type_synonym 'p levels = "('p \<times> slot list) list"

fun lv_push_back :: "('p \<Rightarrow> 'p \<Rightarrow> bool) \<Rightarrow> 'p \<Rightarrow> slot \<Rightarrow> 'p levels \<Rightarrow> 'p levels" where
  "lv_push_back lt k s [] = [(k, [s])]"
| "lv_push_back lt k s ((k', q) # lv) =
     (if lt k k' then (k, [s]) # (k', q) # lv
      else if k = k' then (k', q @ [s]) # lv
      else (k', q) # lv_push_back lt k s lv)"

fun lv_pop_front :: "'p levels \<Rightarrow> 'p levels" where
  "lv_pop_front [] = []"
| "lv_pop_front ((k, q) # lv) = (k, tl q) # lv"

fun lv_erase_front_if_empty :: "'p levels \<Rightarrow> 'p levels" where
  "lv_erase_front_if_empty ((k, []) # lv) = lv"
| "lv_erase_front_if_empty lv = lv"

definition lv_find :: "'p \<Rightarrow> 'p levels \<Rightarrow> slot list option" where
  "lv_find k lv = map_of lv k"

definition lv_set :: "'p \<Rightarrow> slot list \<Rightarrow> 'p levels \<Rightarrow> 'p levels" where
  "lv_set k q lv = map (\<lambda>(k', q'). if k' = k then (k', q) else (k', q')) lv"

definition lv_erase :: "'p \<Rightarrow> 'p levels \<Rightarrow> 'p levels" where
  "lv_erase k lv = filter (\<lambda>(k', _). k' \<noteq> k) lv"

definition lv_slots :: "'p levels \<Rightarrow> slot list" where
  "lv_slots lv = concat (map snd lv)"

text \<open>A comparator of \<open>std::map\<close>: a strict total order on the keys.\<close>

definition strict_total :: "('p \<Rightarrow> 'p \<Rightarrow> bool) \<Rightarrow> bool" where
  "strict_total lt \<longleftrightarrow>
     (\<forall>a. \<not> lt a a) \<and> (\<forall>a b c. lt a b \<longrightarrow> lt b c \<longrightarrow> lt a c) \<and> (\<forall>a b. a \<noteq> b \<longrightarrow> lt a b \<or> lt b a)"

subsection \<open>Lemmas\<close>

lemma strict_total_less [simp]: "strict_total ((<) :: 'p::linorder \<Rightarrow> 'p \<Rightarrow> bool)"
  by (auto simp: strict_total_def)

lemma strict_total_greater [simp]: "strict_total ((>) :: 'p::linorder \<Rightarrow> 'p \<Rightarrow> bool)"
  by (auto simp: strict_total_def)

lemma lv_slots_simps [simp]:
  "lv_slots [] = []"
  "lv_slots ((k, q) # lv) = q @ lv_slots lv"
  by (simp_all add: lv_slots_def)

lemma keys_lv_push_back [simp]:
  "fst ` set (lv_push_back lt k s lv) = insert k (fst ` set lv)"
  by (induction lv) (force split: if_splits)+

lemma sorted_lv_push_back:
  assumes "strict_total lt" and "sorted_wrt lt (map fst lv)"
  shows "sorted_wrt lt (map fst (lv_push_back lt k s lv))"
  using assms(2)
proof (induction lv)
  case Nil
  then show ?case by simp
next
  case (Cons e lv)
  obtain k' q where e: "e = (k', q)" by (cases e)
  from assms(1) have trans: "\<And>a b c. lt a b \<Longrightarrow> lt b c \<Longrightarrow> lt a c"
    and tot: "\<And>a b. a \<noteq> b \<Longrightarrow> lt a b \<or> lt b a"
    unfolding strict_total_def by blast+
  show ?case
  proof (cases "lt k k'")
    case True
    with Cons.prems e show ?thesis by (auto intro: trans)
  next
    case False
    show ?thesis
    proof (cases "k = k'")
      case True
      with Cons.prems e show ?thesis by simp
    next
      case neq: False
      with False tot have "lt k' k" by blast
      with Cons.prems e have "\<forall>x \<in> fst ` set (lv_push_back lt k s lv). lt k' x"
        by simp
      with False neq Cons.IH Cons.prems e show ?thesis by simp
    qed
  qed
qed

lemma lv_push_back_slots:
  "\<exists>xs ys. lv_slots lv = xs @ ys \<and> lv_slots (lv_push_back lt k s lv) = xs @ s # ys"
proof (induction lv)
  case Nil
  then show ?case by simp
next
  case (Cons e lv)
  obtain k' q where e: "e = (k', q)" by (cases e)
  show ?case
  proof (cases "lt k k'")
    case True
    then have "lv_slots (e # lv) = [] @ (q @ lv_slots lv)"
      and "lv_slots (lv_push_back lt k s (e # lv)) = [] @ s # (q @ lv_slots lv)"
      by (simp_all add: e)
    then show ?thesis by blast
  next
    case False
    show ?thesis
    proof (cases "k = k'")
      case True
      with False have "lv_slots (e # lv) = q @ lv_slots lv"
        and "lv_slots (lv_push_back lt k s (e # lv)) = q @ s # lv_slots lv"
        by (simp_all add: e)
      then show ?thesis by blast
    next
      case neq: False
      from Cons.IH obtain xs ys
        where "lv_slots lv = xs @ ys" and "lv_slots (lv_push_back lt k s lv) = xs @ s # ys" by blast
      with False neq have "lv_slots (e # lv) = (q @ xs) @ ys"
        and "lv_slots (lv_push_back lt k s (e # lv)) = (q @ xs) @ s # ys"
        by (simp_all add: e)
      then show ?thesis by blast
    qed
  qed
qed

lemma lv_push_back_queues:
  "(k', q') \<in> set (lv_push_back lt k s lv) \<Longrightarrow>
   ((k', q') \<in> set lv) \<or> (k' = k \<and> (\<exists>q. q' = q @ [s] \<and> ((k, q) \<in> set lv \<or> q = [])))"
  by (induction lt k s lv rule: lv_push_back.induct) (auto split: if_splits)

lemma lv_erase_front_if_empty_Cons [simp]:
  "lv_erase_front_if_empty ((k, q) # lv) = (if q = [] then lv else (k, q) # lv)"
  by (cases q) simp_all

lemma lv_slots_lv_set:
  "\<forall>(k', q') \<in> set lv. (k' = k \<longrightarrow> q' = q) \<and> (k' \<noteq> k \<longrightarrow> s \<notin> set q') \<Longrightarrow>
   lv_slots (lv_set k (removeAll s q) lv) = removeAll s (lv_slots lv)"
  by (induction lv) (auto simp: lv_set_def)

lemma lv_slots_lv_erase:
  "\<forall>(k', q') \<in> set lv. k' = k \<longrightarrow> q' = [] \<Longrightarrow> lv_slots (lv_erase k lv) = lv_slots lv"
  by (induction lv) (auto simp: lv_erase_def)

lemma keys_lv_set [simp]: "map fst (lv_set k q lv) = map fst lv"
  by (induction lv) (auto simp: lv_set_def)

lemma lv_set_mem:
  "(k', q') \<in> set (lv_set k q lv) \<Longrightarrow> (k' = k \<and> q' = q) \<or> (k' \<noteq> k \<and> (k', q') \<in> set lv)"
  by (auto simp: lv_set_def split: if_splits)

lemma lv_erase_mem [simp]: "(k', q') \<in> set (lv_erase k lv) \<longleftrightarrow> k' \<noteq> k \<and> (k', q') \<in> set lv"
  by (auto simp: lv_erase_def)

lemma sorted_lv_erase:
  "sorted_wrt lt (map fst lv) \<Longrightarrow> sorted_wrt lt (map fst (lv_erase k lv))"
  by (induction lv) (auto simp: lv_erase_def)

lemma sorted_strict_distinct:
  "strict_total lt \<Longrightarrow> sorted_wrt lt xs \<Longrightarrow> distinct xs"
  by (induction xs) (auto simp: strict_total_def)

lemma lv_queue_distinct:
  "(k, q) \<in> set lv \<Longrightarrow> distinct (lv_slots lv) \<Longrightarrow> distinct q"
  by (induction lv) auto

lemma lv_slot_level:
  "s \<in> set (lv_slots lv) \<Longrightarrow> \<exists>k q. (k, q) \<in> set lv \<and> s \<in> set q"
  by (induction lv) (auto, blast+)

end
