(* ===== verification/Book_State.thy ===== *)
theory Book_State
  imports Memory_Pool Price_Levels
begin

text \<open>
  The state of \<open>class OrderBook\<close> (\<open>src/src/OrderBook.h\<close>) and the accessors the
  operations share.  \<open>pool_\<close> is the memory pool (whose split heap holds every order's
  fields), \<open>bids_\<close> and \<open>asks_\<close> are price levels sorted by \<open>std::greater\<close> and
  \<open>std::less\<close>, \<open>id_map_\<close> (an \<open>std::unordered_map\<close>) is a partial map from ids to
  slots, and the counters are \<open>size_t\<close> words.  A dereference \<open>p->f\<close> reads the pool's
  heap at the slot; reading a slot that holds no constructed order is undefined
  behaviour and yields \<open>None\<close>.

  The invariant \<open>book_wf xs b\<close> says what holds between calls (\<open>xs = []\<close>) and during a
  matching loop (\<open>xs\<close> the incoming order's slot): both sides are sorted by their
  comparator, no level is empty, every resting slot holds a positive, resting limit order
  of that side at that level's price whose id maps back to the slot, the id index points
  only at resting slots holding an order of that id, \<open>active_orders_\<close> counts the resting slots, and the pool's free
  list, the in-flight slots and the resting slots partition the block.
\<close>

record 'p Fill =
  resting_id :: u64
  incoming_id :: u64
  fill_quantity :: u32
  fill_price :: 'p

record 'p OrderBook =
  pool :: "'p MemoryPool"
  bids :: "'p levels"
  asks :: "'p levels"
  id_map :: "u64 \<Rightarrow> slot option"
  max_orders :: size_t
  active_orders :: size_t

subsection \<open>Accessors\<close>

definition get_order :: "'p OrderBook \<Rightarrow> slot \<Rightarrow> 'p Order option" where
  "get_order b s = heap (pool b) s"

text \<open>\<open>s->quantity = q\<close> for a slot that holds an order.\<close>

definition set_quantity :: "slot \<Rightarrow> u32 \<Rightarrow> 'p OrderBook \<Rightarrow> 'p OrderBook" where
  "set_quantity s q b =
     b\<lparr>pool := (pool b)\<lparr>heap := (heap (pool b))(s := map_option (\<lambda>od. od\<lparr>quantity := q\<rparr>) (heap (pool b) s))\<rparr>\<rparr>"

text \<open>Placement construction \<open>new (s) Order(...)\<close>: every field, \<open>next_free\<close> set to \<open>nullptr\<close>.\<close>

definition construct_order :: "slot \<Rightarrow> 'p Order \<Rightarrow> 'p MemoryPool \<Rightarrow> 'p MemoryPool" where
  "construct_order s od p = p\<lparr>heap := (heap p)(s \<mapsto> od), next_free := (next_free p)(s := None)\<rparr>"

text \<open>The comparator of the side's map: \<open>bids_\<close> (buy orders) use \<open>std::greater\<close>.\<close>

fun side_cmp :: "side \<Rightarrow> 'p::linorder \<Rightarrow> 'p \<Rightarrow> bool" where
  "side_cmp BUY = (>)"
| "side_cmp SELL = (<)"

fun opposite :: "side \<Rightarrow> side" where
  "opposite BUY = SELL"
| "opposite SELL = BUY"

fun levels_of :: "side \<Rightarrow> 'p OrderBook \<Rightarrow> 'p levels" where
  "levels_of BUY b = bids b"
| "levels_of SELL b = asks b"

fun map_levels :: "side \<Rightarrow> ('p levels \<Rightarrow> 'p levels) \<Rightarrow> 'p OrderBook \<Rightarrow> 'p OrderBook" where
  "map_levels BUY f b = b\<lparr>bids := f (bids b)\<rparr>"
| "map_levels SELL f b = b\<lparr>asks := f (asks b)\<rparr>"

subsection \<open>The invariant\<close>

definition resting_ok :: "'p OrderBook \<Rightarrow> side \<Rightarrow> 'p \<Rightarrow> slot \<Rightarrow> bool" where
  "resting_ok b sd k s \<longleftrightarrow>
     (case get_order b s of
        None \<Rightarrow> False
      | Some od \<Rightarrow> side od = sd \<and> price od = k \<and> otype od = LIMIT \<and> 0 < quantity od \<and>
                  id_map b (order_id od) = Some s)"

definition side_wf :: "side \<Rightarrow> 'p::linorder OrderBook \<Rightarrow> bool" where
  "side_wf sd b \<longleftrightarrow>
     sorted_wrt (side_cmp sd) (map fst (levels_of sd b)) \<and>
     (\<forall>(k, q) \<in> set (levels_of sd b). q \<noteq> [] \<and> (\<forall>s \<in> set q. resting_ok b sd k s))"

definition book_slots :: "'p OrderBook \<Rightarrow> slot list" where
  "book_slots b = lv_slots (bids b) @ lv_slots (asks b)"

definition book_wf :: "slot list \<Rightarrow> 'p::linorder OrderBook \<Rightarrow> bool" where
  "book_wf xs b \<longleftrightarrow>
     side_wf BUY b \<and> side_wf SELL b \<and>
     (\<forall>i s. id_map b i = Some s \<longrightarrow>
        s \<in> set (book_slots b) \<and> map_option order_id (get_order b s) = Some i) \<and>
     unat (active_orders b) = length (book_slots b) \<and>
     pool_inv (pool b) (xs @ book_slots b)"

text \<open>The abstract view of one side: its resting orders in price-time priority.\<close>

definition side_orders :: "side \<Rightarrow> 'p OrderBook \<Rightarrow> 'p Order list" where
  "side_orders sd b = map (\<lambda>s. the (get_order b s)) (lv_slots (levels_of sd b))"

subsection \<open>Frame lemmas\<close>

lemma get_order_set_quantity [simp]:
  "get_order (set_quantity x v b) s =
     (if s = x then map_option (\<lambda>od. od\<lparr>quantity := v\<rparr>) (get_order b s) else get_order b s)"
  by (simp add: get_order_def set_quantity_def)

lemma set_quantity_fields [simp]:
  "levels_of sd (set_quantity x v b) = levels_of sd b"
  "bids (set_quantity x v b) = bids b"
  "asks (set_quantity x v b) = asks b"
  "id_map (set_quantity x v b) = id_map b"
  "active_orders (set_quantity x v b) = active_orders b"
  "pool_inv (pool (set_quantity x v b)) xs = pool_inv (pool b) xs"
  by (cases sd; simp add: set_quantity_def)+

lemma levels_of_map_levels [simp]:
  "levels_of sd (map_levels sd' f b) = (if sd = sd' then f (levels_of sd b) else levels_of sd b)"
  by (cases sd; cases sd') simp_all

lemma map_levels_fields [simp]:
  "pool (map_levels sd f b) = pool b"
  "id_map (map_levels sd f b) = id_map b"
  "active_orders (map_levels sd f b) = active_orders b"
  "get_order (map_levels sd f b) = get_order b"
  by (cases sd; simp add: get_order_def fun_eq_iff)+

lemma book_slots_side:
  "set (book_slots b) = set (lv_slots (levels_of BUY b)) \<union> set (lv_slots (levels_of SELL b))"
  by (simp add: book_slots_def)

lemma book_wf_distinct: "book_wf xs b \<Longrightarrow> distinct (xs @ book_slots b)"
  by (auto simp: book_wf_def pool_inv_def)

lemma resting_ok_set_quantity:
  "s \<noteq> x \<Longrightarrow> resting_ok (set_quantity x v b) sd k s = resting_ok b sd k s"
  by (simp add: resting_ok_def split: option.splits)

lemma side_wf_set_quantity:
  assumes "x \<notin> set (lv_slots (levels_of sd b))"
  shows "side_wf sd (set_quantity x v b) = side_wf sd b"
proof -
  have "resting_ok (set_quantity x v b) sd k s = resting_ok b sd k s"
    if "(k, q) \<in> set (levels_of sd b)" and "s \<in> set q" for k q s
  proof -
    from that assms have "s \<noteq> x" by (auto simp: lv_slots_def)
    then show ?thesis by (rule resting_ok_set_quantity)
  qed
  then show ?thesis unfolding side_wf_def by fastforce
qed

lemma book_wf_set_quantity_free:
  assumes "x \<notin> set (book_slots b)"
  shows "book_wf xs (set_quantity x v b) = book_wf xs b"
proof -
  have "x \<notin> set (lv_slots (levels_of sd b))" for sd
    using assms by (cases sd) (auto simp: book_slots_def)
  then have "side_wf sd (set_quantity x v b) = side_wf sd b" for sd
    by (rule side_wf_set_quantity)
  moreover have "map_option order_id (get_order (set_quantity x v b) s) = map_option order_id (get_order b s)" for s
    by (simp add: option.map_comp comp_def)
  ultimately show ?thesis unfolding book_wf_def
    by (simp add: book_slots_def)
qed

lemma side_orders_set_quantity_other:
  "x \<notin> set (lv_slots (levels_of sd b)) \<Longrightarrow> side_orders sd (set_quantity x v b) = side_orders sd b"
  by (auto simp: side_orders_def)

end
