(* ===== verification/Matching.thy ===== *)
theory Matching
  imports Book_State
begin

text \<open>
  The matching algorithm of \<open>src/src/OrderBook.cpp\<close>: \<open>matchLimitOrder\<close> and
  \<open>matchMarketOrder\<close>.  Each of them branches once on the incoming order's side and then
  runs a \<open>while\<close> loop against the opposite side's map; the four loops differ only in the
  side and in whether the price gate (\<open>incoming->price < bestPrice\<close> for a buy,
  \<open>incoming->price > bestPrice\<close> for a sell) is evaluated.  The model has one loop body
  \<open>match_step\<close> parameterised by the gate flag and the side, and the loop
  \<open>match_loop\<close> as a \<open>partial_function (option)\<close>: \<open>None\<close> is undefined behaviour
  (a dereference of an unconstructed slot, \<open>front()\<close> of an empty deque) or a loop
  that does not stop.  Every read and write of the body is a read or write of the
  pool's heap in the source's order, so an incoming slot that aliased a resting one
  would be modelled as the C++ behaves; the invariant excludes it.
\<close>

fun price_blocks :: "side \<Rightarrow> 'p::linorder \<Rightarrow> 'p \<Rightarrow> bool" where
  "price_blocks BUY ip bestPrice = (ip < bestPrice)"
| "price_blocks SELL ip bestPrice = (ip > bestPrice)"

text \<open>
  The block run when the resting order is exhausted: \<open>id_map_.erase(resting->id)\<close>,
  \<open>queueAtPrice.pop_front()\<close>, \<open>pool_.deallocate(resting)\<close>, \<open>--active_orders_\<close>,
  and \<open>erase(bestIt)\<close> if the level is now empty.
\<close>

definition retire_front :: "side \<Rightarrow> u64 \<Rightarrow> slot \<Rightarrow> 'p OrderBook \<Rightarrow> 'p OrderBook" where
  "retire_front ls rid resting b =
     (let b1 = b\<lparr>id_map := (id_map b)(rid := None)\<rparr>;
          b2 = map_levels ls lv_pop_front b1;
          b3 = b2\<lparr>pool := deallocate (Some resting) (pool b2)\<rparr>;
          b4 = b3\<lparr>active_orders := active_orders b3 - 1\<rparr>
      in map_levels ls lv_erase_front_if_empty b4)"

text \<open>
  One iteration of the loop: \<open>Inl\<close> when the loop exits (guard false or the price gate
  breaks), \<open>Inr\<close> with the new state when it goes round again.
\<close>

definition match_step ::
  "bool \<Rightarrow> side \<Rightarrow> slot \<Rightarrow> 'p Fill list \<Rightarrow> 'p::linorder OrderBook \<Rightarrow>
   ('p OrderBook \<times> 'p Fill list + 'p OrderBook \<times> 'p Fill list) option"
where
  "match_step gated sd inc fills b = do {
     io \<leftarrow> get_order b inc;
     if \<not> (0 < quantity io \<and> levels_of (opposite sd) b \<noteq> []) then Some (Inl (b, fills))
     else do {
       let (bestPrice, queueAtPrice) = hd (levels_of (opposite sd) b);
       if gated \<and> price_blocks sd (price io) bestPrice then Some (Inl (b, fills))
       else (case queueAtPrice of
         [] \<Rightarrow> None
       | resting # _ \<Rightarrow> do {
           ro \<leftarrow> get_order b resting;
           let tradedQty = min (quantity io) (quantity ro);
           let fills' = fills @ [\<lparr>resting_id = order_id ro, incoming_id = order_id io,
                                  fill_quantity = tradedQty, fill_price = bestPrice\<rparr>];
           let b1 = set_quantity inc (quantity io - tradedQty) b;
           ro1 \<leftarrow> get_order b1 resting;
           let b2 = set_quantity resting (quantity ro1 - tradedQty) b1;
           ro2 \<leftarrow> get_order b2 resting;
           if quantity ro2 = 0
           then Some (Inr (retire_front (opposite sd) (order_id ro2) resting b2, fills'))
           else Some (Inr (b2, fills'))
         })
     }
   }"

partial_function (option) match_loop ::
  "bool \<Rightarrow> side \<Rightarrow> slot \<Rightarrow> 'p Fill list \<Rightarrow> 'p::linorder OrderBook \<Rightarrow> ('p OrderBook \<times> 'p Fill list) option"
where
  "match_loop gated sd inc fills b =
     (case match_step gated sd inc fills b of
        None \<Rightarrow> None
      | Some (Inl r) \<Rightarrow> Some r
      | Some (Inr (b', fills')) \<Rightarrow> match_loop gated sd inc fills' b')"

declare match_loop.simps [code]

definition matchLimitOrder ::
  "slot \<Rightarrow> 'p Fill list \<Rightarrow> 'p::linorder OrderBook \<Rightarrow> ('p OrderBook \<times> 'p Fill list) option" where
  "matchLimitOrder inc fills b = do { io \<leftarrow> get_order b inc; match_loop True (side io) inc fills b }"

definition matchMarketOrder ::
  "slot \<Rightarrow> 'p Fill list \<Rightarrow> 'p::linorder OrderBook \<Rightarrow> ('p OrderBook \<times> 'p Fill list) option" where
  "matchMarketOrder inc fills b = do { io \<leftarrow> get_order b inc; match_loop False (side io) inc fills b }"

subsection \<open>The abstract matching specification\<close>

text \<open>
  What one call of the matching loop promises (spec section 4.3), stated on the opposite
  side seen as one list of resting orders in price-time priority: walk the list from
  the front while the incoming quantity is positive and the gate admits the resting
  order's price; an exhausted resting order is removed and emits a fill of its whole
  quantity, a partially filled one keeps the rest and ends the walk.  Every fill trades
  at the resting order's price.
\<close>

definition gate_ok :: "bool \<Rightarrow> side \<Rightarrow> 'p::linorder \<Rightarrow> 'p \<Rightarrow> bool" where
  "gate_ok gated sd ip p \<longleftrightarrow> \<not> (gated \<and> price_blocks sd ip p)"

fun amatch :: "('p \<Rightarrow> bool) \<Rightarrow> u64 \<Rightarrow> u32 \<Rightarrow> 'p Order list \<Rightarrow> 'p Fill list \<times> u32 \<times> 'p Order list" where
  "amatch ok iid q [] = ([], q, [])"
| "amatch ok iid q (r # rs) =
     (if q = 0 \<or> \<not> ok (price r) then ([], q, r # rs)
      else if quantity r \<le> q then
        (let (fs, q', rest) = amatch ok iid (q - quantity r) rs
         in (\<lparr>resting_id = order_id r, incoming_id = iid, fill_quantity = quantity r,
               fill_price = price r\<rparr> # fs, q', rest))
      else ([\<lparr>resting_id = order_id r, incoming_id = iid, fill_quantity = q, fill_price = price r\<rparr>],
            0, r\<lparr>quantity := quantity r - q\<rparr> # rs))"

text \<open>
  The variant of the matching loop: the resting orders of the opposite side, plus one
  while the incoming order still has quantity.
\<close>

definition loop_measure :: "side \<Rightarrow> slot \<Rightarrow> 'p OrderBook \<Rightarrow> nat" where
  "loop_measure sd inc b =
     length (side_orders (opposite sd) b) + (if quantity (the (get_order b inc)) = 0 then 0 else 1)"

subsection \<open>Lemmas on the loop body\<close>


lemma retire_front_fields [simp]:
  "get_order (retire_front ls rid r b) = get_order b"
  "id_map (retire_front ls rid r b) = (id_map b)(rid := None)"
  "active_orders (retire_front ls rid r b) = active_orders b - 1"
  "pool (retire_front ls rid r b) = deallocate (Some r) (pool b)"
  "levels_of sd (retire_front ls rid r b) =
     (if sd = ls then lv_erase_front_if_empty (lv_pop_front (levels_of sd b)) else levels_of sd b)"
  by (cases ls; cases sd; simp add: retire_front_def Let_def get_order_def fun_eq_iff)+

lemma retire_front_set_quantity:
  "retire_front ls rid r (set_quantity x v b) = set_quantity x v (retire_front ls rid r b)"
  by (cases ls) (simp_all add: retire_front_def Let_def set_quantity_def deallocate_def split: option.splits)

lemma retire_front_sides [simp]:
  "bids (retire_front ls rid r b) =
     (if ls = BUY then lv_erase_front_if_empty (lv_pop_front (bids b)) else bids b)"
  "asks (retire_front ls rid r b) =
     (if ls = SELL then lv_erase_front_if_empty (lv_pop_front (asks b)) else asks b)"
  by (cases ls; simp add: retire_front_def Let_def)+

lemma book_slots_retire:
  assumes "levels_of ls b = (k, r # q) # lv"
  shows "set (book_slots b) = insert r (set (book_slots (retire_front ls rid r b)))"
    and "length (book_slots b) = Suc (length (book_slots (retire_front ls rid r b)))"
  using assms by (cases ls; simp add: book_slots_def Un_assoc)+

lemma side_wf_slot:
  "side_wf sd b \<Longrightarrow> (k, q) \<in> set (levels_of sd b) \<Longrightarrow> s \<in> set q \<Longrightarrow> resting_ok b sd k s"
  by (auto simp: side_wf_def)

lemma slot_in_book:
  "(k, q) \<in> set (levels_of sd b) \<Longrightarrow> s \<in> set q \<Longrightarrow> s \<in> set (book_slots b)"
  by (cases sd) (force simp: book_slots_def lv_slots_def)+

lemma resting_ok_erase_id:
  assumes "resting_ok b sd k s" and "id_map b rid = Some r" and "s \<noteq> r"
    and "get_order b' s = get_order b s" and "id_map b' = (id_map b)(rid := None)"
  shows "resting_ok b' sd k s"
  using assms by (auto simp: resting_ok_def split: option.splits)

lemma distinct_insert_length:
  assumes "distinct xs" and "set xs = insert r (set ys)" and "length xs = Suc (length ys)"
  shows "r \<notin> set ys"
proof
  assume "r \<in> set ys"
  then have "card (set xs) = card (set ys)" using assms(2) by (simp add: insert_absorb)
  also have "\<dots> \<le> length ys" by (rule card_length)
  finally show False using assms(1,3) by (simp add: distinct_card)
qed

lemma retire_front_levels:
  assumes wf: "side_wf ls b" and wf': "side_wf sd b" and lv: "levels_of ls b = (k, r # q) # lv"
    and mem: "(k', q') \<in> set (levels_of sd (retire_front ls rid r b))"
  shows "q' \<noteq> [] \<and> (\<exists>q0. (k', q0) \<in> set (levels_of sd b) \<and> set q' \<subseteq> set q0)"
proof (cases "sd = ls")
  case True
  with mem lv have "(k', q') \<in> (if q = [] then set lv else insert (k, q) (set lv))"
    by (simp split: if_splits)
  moreover have "\<forall>(k, q) \<in> set lv. q \<noteq> []" using wf lv by (auto simp: side_wf_def)
  ultimately show ?thesis using True lv by (auto split: if_splits)
next
  case False
  with mem wf' show ?thesis by (auto simp: side_wf_def)
qed

text \<open>
  Removing one resting slot \<open>r\<close> (the matching loop retiring a filled order,
  \<open>cancelOrder\<close> cancelling one) keeps the invariant when the id of \<open>r\<close> leaves the
  index, \<open>r\<close> returns to the pool, the counter drops by one, and every remaining level
  is non-empty, sorted, and a part of a level of the same price before.
\<close>

lemma book_wf_remove:
  assumes wf: "book_wf xs b" and idr: "id_map b rid = Some r"
    and g: "get_order b' = get_order b" and im: "id_map b' = (id_map b)(rid := None)"
    and set: "set (book_slots b) = insert r (set (book_slots b'))"
    and len: "length (book_slots b) = Suc (length (book_slots b'))"
    and lvs: "\<And>sd k' q'. (k', q') \<in> set (levels_of sd b') \<Longrightarrow>
                q' \<noteq> [] \<and> (\<exists>q0. (k', q0) \<in> set (levels_of sd b) \<and> set q' \<subseteq> set q0)"
    and srt: "\<And>sd. sorted_wrt (side_cmp sd) (map fst (levels_of sd b'))"
    and act: "active_orders b' = active_orders b - 1" and p: "pool b' = deallocate (Some r) (pool b)"
  shows "book_wf xs b'"
proof -
  have d: "distinct (xs @ book_slots b)" using wf by (rule book_wf_distinct)
  have rnot: "r \<notin> set (book_slots b')"
    using d set len by (intro distinct_insert_length [of "book_slots b"]) auto
  have sw: "side_wf sd b" for sd using wf by (cases sd) (auto simp: book_wf_def)
  have ro: "map_option order_id (get_order b r) = Some rid" using wf idr by (simp add: book_wf_def)
  have side: "side_wf sd b'" for sd
  proof -
    have qs: "q' \<noteq> [] \<and> (\<forall>s \<in> set q'. resting_ok b' sd k' s)"
      if mem: "(k', q') \<in> set (levels_of sd b')" for k' q'
    proof -
      from lvs [OF mem] obtain q0
        where ne: "q' \<noteq> []" and q0: "(k', q0) \<in> set (levels_of sd b)" and sub: "set q' \<subseteq> set q0"
        by blast
      have "resting_ok b' sd k' s" if s: "s \<in> set q'" for s
      proof (rule resting_ok_erase_id [OF _ idr])
        show "resting_ok b sd k' s" using sw q0 sub s by (blast intro: side_wf_slot)
        show "s \<noteq> r" using rnot slot_in_book [OF mem s] by blast
      qed (simp_all add: g im)
      with ne show ?thesis by blast
    qed
    then have "\<forall>e \<in> set (levels_of sd b'). snd e \<noteq> [] \<and> (\<forall>s \<in> set (snd e). resting_ok b' sd (fst e) s)"
      by (metis prod.collapse)
    with srt show ?thesis unfolding side_wf_def by (simp add: case_prod_beta)
  qed
  have ids: "s \<in> set (book_slots b') \<and> map_option order_id (get_order b' s) = Some i"
    if "id_map b' i = Some s" for i s
  proof -
    from that have i: "i \<noteq> rid" and m: "id_map b i = Some s" by (auto simp: im split: if_splits)
    with wf have "s \<in> set (book_slots b)" and o: "map_option order_id (get_order b s) = Some i"
      by (auto simp: book_wf_def)
    moreover from o ro i have "s \<noteq> r" by auto
    ultimately show ?thesis using set g by simp
  qed
  have "unat (active_orders b) = length (book_slots b)" using wf by (simp add: book_wf_def)
  with len have a: "unat (active_orders b) = Suc (length (book_slots b'))" by simp
  then have "active_orders b \<noteq> 0" by (metis Zero_not_Suc unat_0)
  with a act have act': "unat (active_orders b') = length (book_slots b')"
    by (simp add: unat_minus_one)
  have "pool_inv (pool b) (xs @ book_slots b)" using wf by (simp add: book_wf_def)
  then have "pool_inv (pool b) (r # xs @ book_slots b')"
    using set len by (subst (asm) pool_inv_cong [where ys = "r # xs @ book_slots b'"]) auto
  then have "pool_inv (pool b') (xs @ book_slots b')" by (simp add: deallocate_inv p)
  with side ids act' show ?thesis by (simp add: book_wf_def)
qed

lemma retire_front_wf:
  assumes wf: "book_wf xs b" and lv: "levels_of ls b = (k, r # q) # lv"
    and ro: "get_order b r = Some ro"
  shows "book_wf xs (retire_front ls (order_id ro) r b)"
proof -
  have sw: "side_wf sd b" for sd using wf by (cases sd) (auto simp: book_wf_def)
  have "resting_ok b ls k r" using sw lv by (intro side_wf_slot) auto
  then have idr: "id_map b (order_id ro) = Some r" using ro by (simp add: resting_ok_def)
  show ?thesis
  proof (rule book_wf_remove [OF wf idr])
    show "set (book_slots b) = insert r (set (book_slots (retire_front ls (order_id ro) r b)))"
      and "length (book_slots b) = Suc (length (book_slots (retire_front ls (order_id ro) r b)))"
      using book_slots_retire [OF lv] by blast+
    show "(k', q') \<in> set (levels_of sd (retire_front ls (order_id ro) r b)) \<Longrightarrow>
        q' \<noteq> [] \<and> (\<exists>q0. (k', q0) \<in> set (levels_of sd b) \<and> set q' \<subseteq> set q0)" for sd k' q'
      by (rule retire_front_levels [OF sw sw lv])
    show "sorted_wrt (side_cmp sd) (map fst (levels_of sd (retire_front ls (order_id ro) r b)))" for sd
      using sw [of sd] lv by (cases "sd = ls") (auto simp: side_wf_def)
  qed simp_all
qed

lemma retire_front_not_slot:
  assumes "book_wf xs b" and "levels_of ls b = (k, r # q) # lv"
  shows "r \<notin> set (book_slots (retire_front ls rid r b))"
  using book_wf_distinct [OF assms(1)] book_slots_retire [OF assms(2)]
  by (intro distinct_insert_length [of "book_slots b"]) auto

lemma resting_ok_set_quantity_pos:
  "0 < v \<Longrightarrow> resting_ok b sd k s \<Longrightarrow> resting_ok (set_quantity x v b) sd k s"
  by (auto simp: resting_ok_def split: option.splits)

lemma book_wf_set_quantity_pos:
  assumes "book_wf xs b" and "0 < v"
  shows "book_wf xs (set_quantity x v b)"
proof -
  have "side_wf sd (set_quantity x v b)" for sd
  proof -
    have "side_wf sd b" using assms(1) by (cases sd) (simp_all add: book_wf_def)
    then show ?thesis unfolding side_wf_def
      by (auto simp: case_prod_beta intro: resting_ok_set_quantity_pos [OF assms(2)])
  qed
  moreover have "map_option order_id (get_order (set_quantity x v b) s) = map_option order_id (get_order b s)" for s
    by (simp add: option.map_comp comp_def)
  ultimately show ?thesis using assms(1) unfolding book_wf_def by (simp add: book_slots_def)
qed

lemma side_orders_front:
  assumes "levels_of ls b = (k, r # q) # lv"
  shows "side_orders ls b = the (get_order b r) # map (\<lambda>s. the (get_order b s)) (q @ lv_slots lv)"
  using assms by (simp add: side_orders_def)

lemma map_get_order_set_quantity:
  "x \<notin> set ss \<Longrightarrow> map (\<lambda>s. the (get_order (set_quantity x v b) s)) ss = map (\<lambda>s. the (get_order b s)) ss"
  by auto

lemma slots_side_book:
  "set (lv_slots (levels_of sd b)) \<subseteq> set (book_slots b)"
  by (cases sd) (auto simp: book_slots_def)

lemma distinct_side_slots:
  "book_wf xs b \<Longrightarrow> distinct (xs @ lv_slots (levels_of sd b))"
  using book_wf_distinct [of xs b] by (cases sd) (auto simp: book_slots_def)

lemma opposite_neq [simp]: "opposite sd \<noteq> sd" "sd \<noteq> opposite sd"
  by (cases sd; simp)+

subsection \<open>One iteration of the loop\<close>


lemma front_order:
  assumes wf: "book_wf [inc] b" and lv: "levels_of ls b = (bp, r # q) # lv"
  shows "\<exists>ro. get_order b r = Some ro \<and> price ro = bp \<and> 0 < quantity ro \<and> r \<noteq> inc"
proof -
  have "side_wf ls b" using wf by (cases ls) (simp_all add: book_wf_def)
  then have "resting_ok b ls bp r" using lv by (intro side_wf_slot) auto
  moreover have "r \<noteq> inc" using distinct_side_slots [OF wf, of ls] lv by auto
  ultimately show ?thesis by (auto simp: resting_ok_def split: option.splits)
qed

lemma match_step_stop:
  assumes "get_order b inc = Some io"
    and "quantity io = 0 \<or> levels_of (opposite sd) b = [] \<or>
         (\<exists>qu lv. levels_of (opposite sd) b = (bp, qu) # lv \<and> \<not> gate_ok g sd (price io) bp)"
  shows "match_step g sd inc fs b = Some (Inl (b, fs))"
  using assms by (auto simp: match_step_def gate_ok_def)

lemma match_step_exhaust:
  assumes io: "get_order b inc = Some io" and lv: "levels_of (opposite sd) b = (bp, r # q) # lv"
    and pos: "0 < quantity io" and ng: "gate_ok g sd (price io) bp"
    and ro: "get_order b r = Some ro" and ne: "r \<noteq> inc" and le: "quantity ro \<le> quantity io"
  shows "match_step g sd inc fs b =
           Some (Inr (retire_front (opposite sd) (order_id ro) r
                        (set_quantity r 0 (set_quantity inc (quantity io - quantity ro) b)),
                      fs @ [\<lparr>resting_id = order_id ro, incoming_id = order_id io,
                             fill_quantity = quantity ro, fill_price = bp\<rparr>]))"
proof -
  have m: "min (quantity io) (quantity ro) = quantity ro" using le by (simp add: min_def)
  show ?thesis using io lv pos ng ro ne
    by (simp add: match_step_def gate_ok_def m Let_def)
qed

lemma match_step_partial:
  assumes io: "get_order b inc = Some io" and lv: "levels_of (opposite sd) b = (bp, r # q) # lv"
    and pos: "0 < quantity io" and ng: "gate_ok g sd (price io) bp"
    and ro: "get_order b r = Some ro" and ne: "r \<noteq> inc" and lt: "quantity io < quantity ro"
  shows "match_step g sd inc fs b =
           Some (Inr (set_quantity r (quantity ro - quantity io) (set_quantity inc 0 b),
                      fs @ [\<lparr>resting_id = order_id ro, incoming_id = order_id io,
                             fill_quantity = quantity io, fill_price = bp\<rparr>]))"
proof -
  have m: "min (quantity io) (quantity ro) = quantity io" using lt by (simp add: min_absorb1)
  have nz: "quantity ro - quantity io \<noteq> 0" using lt by simp
  show ?thesis using io lv pos ng ro ne nz
    by (simp add: match_step_def gate_ok_def m Let_def)
qed

lemma sides_disjoint:
  "book_wf xs b \<Longrightarrow> set (lv_slots (levels_of sd b)) \<inter> set (lv_slots (levels_of (opposite sd) b)) = {}"
  using book_wf_distinct [of xs b] by (cases sd) (auto simp: book_slots_def)

lemma exhaust_post:
  fixes v :: u32
  assumes wf: "book_wf [inc] b" and io: "get_order b inc = Some io"
    and lv: "levels_of (opposite sd) b = (bp, r # q) # lv" and ro: "get_order b r = Some ro"
  defines "b' \<equiv> retire_front (opposite sd) (order_id ro) r (set_quantity r 0 (set_quantity inc v b))"
  shows "book_wf [inc] b' \<and> get_order b' inc = Some (io\<lparr>quantity := v\<rparr>) \<and>
         side_orders (opposite sd) b' = tl (side_orders (opposite sd) b) \<and>
         side_orders sd b' = side_orders sd b \<and> id_map b' \<subseteq>\<^sub>m id_map b"
proof -
  let ?b1 = "set_quantity inc v b"
  let ?b2 = "retire_front (opposite sd) (order_id ro) r ?b1"
  have ne: "r \<noteq> inc" using front_order [OF wf lv] by blast
  have inc_free: "inc \<notin> set (book_slots b)" using book_wf_distinct [OF wf] by simp
  have wf1: "book_wf [inc] ?b1" using wf by (simp add: book_wf_set_quantity_free [OF inc_free])
  have lv1: "levels_of (opposite sd) ?b1 = (bp, r # q) # lv" using lv by simp
  have ro1: "get_order ?b1 r = Some ro" using ro ne by simp
  have b': "b' = set_quantity r 0 ?b2"
    by (simp add: b'_def retire_front_set_quantity)
  have wf2: "book_wf [inc] ?b2" by (rule retire_front_wf [OF wf1 lv1 ro1])
  have "r \<notin> set (book_slots ?b2)" by (rule retire_front_not_slot [OF wf1 lv1])
  with wf2 have wf': "book_wf [inc] b'" by (simp add: b' book_wf_set_quantity_free)
  have dist: "distinct (inc # r # q @ lv_slots lv)"
    using distinct_side_slots [OF wf, of "opposite sd"] lv by simp
  have opp: "side_orders (opposite sd) b' = tl (side_orders (opposite sd) b)"
    using dist lv by (auto simp: b' side_orders_def side_orders_front)
  have disj: "r \<notin> set (lv_slots (levels_of sd b))"
    using sides_disjoint [OF wf, of sd] lv by auto
  moreover have "inc \<notin> set (lv_slots (levels_of sd b))"
    using distinct_side_slots [OF wf, of sd] by simp
  ultimately have own: "side_orders sd b' = side_orders sd b"
    by (auto simp: b' side_orders_def)
  have "id_map b' \<subseteq>\<^sub>m id_map b" by (simp add: b' map_le_def)
  with wf' opp own ne io show ?thesis by (simp add: b')
qed

lemma partial_post:
  assumes wf: "book_wf [inc] b" and io: "get_order b inc = Some io"
    and lv: "levels_of (opposite sd) b = (bp, r # q) # lv" and ro: "get_order b r = Some ro"
    and pos: "0 < v"
  defines "b' \<equiv> set_quantity r v (set_quantity inc 0 b)"
  shows "book_wf [inc] b' \<and> get_order b' inc = Some (io\<lparr>quantity := 0\<rparr>) \<and>
         side_orders (opposite sd) b' = ro\<lparr>quantity := v\<rparr> # tl (side_orders (opposite sd) b) \<and>
         side_orders sd b' = side_orders sd b \<and> id_map b' = id_map b"
proof -
  have ne: "r \<noteq> inc" using front_order [OF wf lv] by blast
  have inc_free: "inc \<notin> set (book_slots b)" using book_wf_distinct [OF wf] by simp
  have wf': "book_wf [inc] b'"
    using wf pos by (simp add: b'_def book_wf_set_quantity_free [OF inc_free] book_wf_set_quantity_pos)
  have dist: "distinct (inc # r # q @ lv_slots lv)"
    using distinct_side_slots [OF wf, of "opposite sd"] lv by simp
  have opp: "side_orders (opposite sd) b' = ro\<lparr>quantity := v\<rparr> # tl (side_orders (opposite sd) b)"
    using dist lv ro ne by (auto simp: b'_def side_orders_def side_orders_front)
  have "r \<notin> set (lv_slots (levels_of sd b))"
    using sides_disjoint [OF wf, of sd] lv by auto
  moreover have "inc \<notin> set (lv_slots (levels_of sd b))"
    using distinct_side_slots [OF wf, of sd] by simp
  ultimately have own: "side_orders sd b' = side_orders sd b"
    by (auto simp: b'_def side_orders_def)
  from wf' opp own ne io show ?thesis by (simp add: b'_def)
qed

lemma side_orders_empty:
  "book_wf xs b \<Longrightarrow> (side_orders sd b = []) = (levels_of sd b = [])"
proof -
  assume wf: "book_wf xs b"
  then have "side_wf sd b" by (cases sd) (simp_all add: book_wf_def)
  then have "\<forall>(k, q) \<in> set (levels_of sd b). q \<noteq> []" by (auto simp: side_wf_def)
  then show ?thesis by (cases "levels_of sd b") (auto simp: side_orders_def)
qed

lemma levels_front:
  assumes "book_wf xs b" and "levels_of sd b \<noteq> []"
  shows "\<exists>bp r q lv. levels_of sd b = (bp, r # q) # lv"
proof -
  from assms(1) have "side_wf sd b" by (cases sd) (simp_all add: book_wf_def)
  then have "\<forall>(k, q) \<in> set (levels_of sd b). q \<noteq> []" by (auto simp: side_wf_def)
  with assms(2) show ?thesis by (cases "levels_of sd b") (auto simp: neq_Nil_conv)
qed

lemma match_loop_step:
  "match_step g sd inc fs b = Some (Inl r) \<Longrightarrow> match_loop g sd inc fs b = Some r"
  "match_step g sd inc fs b = Some (Inr (b', fs')) \<Longrightarrow> match_loop g sd inc fs b = match_loop g sd inc fs' b'"
  by (subst match_loop.simps; simp)+

lemma match_loop_amatch_aux:
  assumes "rs = side_orders (opposite sd) b" and "book_wf [inc] b" and "get_order b inc = Some io"
    and "amatch (gate_ok g sd (price io)) (order_id io) (quantity io) rs = (fills, q', rest)"
  shows "\<exists>b'. match_loop g sd inc fs b = Some (b', fs @ fills) \<and> book_wf [inc] b' \<and>
           get_order b' inc = Some (io\<lparr>quantity := q'\<rparr>) \<and> side_orders (opposite sd) b' = rest \<and>
           side_orders sd b' = side_orders sd b \<and> id_map b' \<subseteq>\<^sub>m id_map b"
  using assms
proof (induction rs arbitrary: b io fs fills q' rest)
  case Nil
  then have "levels_of (opposite sd) b = []" using side_orders_empty by metis
  with Nil.prems have "match_loop g sd inc fs b = Some (b, fs)"
    by (intro match_loop_step(1) match_step_stop) auto
  with Nil.prems show ?case by auto
next
  case (Cons r0 rs')
  note wf = Cons.prems(2) and io = Cons.prems(3) and am = Cons.prems(4)
  let ?ok = "gate_ok g sd (price io)"
  from Cons.prems(1) wf have "levels_of (opposite sd) b \<noteq> []" using side_orders_empty by force
  then obtain bp r q lv where lv: "levels_of (opposite sd) b = (bp, r # q) # lv"
    using levels_front [OF wf] by blast
  from front_order [OF wf lv] obtain ro where ro: "get_order b r = Some ro" and bp: "price ro = bp"
    and ne: "r \<noteq> inc" by blast
  from Cons.prems(1) lv ro have r0: "r0 = ro" and rs': "rs' = tl (side_orders (opposite sd) b)"
    by (simp_all add: side_orders_front)
  show ?case
  proof (cases "quantity io = 0 \<or> \<not> ?ok bp")
    case True
    then have "match_loop g sd inc fs b = Some (b, fs)"
      using io lv by (intro match_loop_step(1) match_step_stop) auto
    moreover from True am r0 bp have "fills = [] \<and> q' = quantity io \<and> rest = r0 # rs'"
      by (auto split: if_splits)
    ultimately show ?thesis using wf io Cons.prems(1) by auto
  next
    case False
    then have pos: "0 < quantity io" and ng: "?ok bp" by (auto simp: word_gt_0)
    show ?thesis
    proof (cases "quantity ro \<le> quantity io")
      case le: True
      let ?f = "\<lparr>resting_id = order_id ro, incoming_id = order_id io, fill_quantity = quantity ro, fill_price = bp\<rparr>"
      let ?io = "io\<lparr>quantity := quantity io - quantity ro\<rparr>"
      let ?b = "retire_front (opposite sd) (order_id ro) r
                  (set_quantity r 0 (set_quantity inc (quantity io - quantity ro) b))"
      have loop: "match_loop g sd inc fs b = match_loop g sd inc (fs @ [?f]) ?b"
        by (rule match_loop_step(2) [OF match_step_exhaust [OF io lv pos ng ro ne le]])
      from exhaust_post [OF wf io lv ro, of "quantity io - quantity ro"]
      have post: "book_wf [inc] ?b" "get_order ?b inc = Some ?io"
        "side_orders (opposite sd) ?b = rs'" "side_orders sd ?b = side_orders sd b"
        "id_map ?b \<subseteq>\<^sub>m id_map b"
        using rs' by auto
      obtain fills' where am': "amatch ?ok (order_id io) (quantity io - quantity ro) rs' = (fills', q', rest)"
        and fills: "fills = ?f # fills'"
        using am False le r0 bp by (auto split: prod.splits if_splits)
      have am'': "amatch (gate_ok g sd (price ?io)) (order_id ?io) (quantity ?io) rs' = (fills', q', rest)"
        using am' by simp
      from Cons.IH [OF post(3) [symmetric] post(1) post(2) am'', of "fs @ [?f]"]
      obtain b' where "match_loop g sd inc (fs @ [?f]) ?b = Some (b', (fs @ [?f]) @ fills')"
        and "book_wf [inc] b'" and "get_order b' inc = Some (?io\<lparr>quantity := q'\<rparr>)"
        and "side_orders (opposite sd) b' = rest" and "side_orders sd b' = side_orders sd ?b"
        and "id_map b' \<subseteq>\<^sub>m id_map ?b"
        by blast
      with loop fills post(4,5) show ?thesis
        by (intro exI [of _ b']) (auto intro: map_le_trans)
    next
      case lt: False
      then have lt: "quantity io < quantity ro" by simp
      let ?f = "\<lparr>resting_id = order_id ro, incoming_id = order_id io, fill_quantity = quantity io, fill_price = bp\<rparr>"
      let ?b = "set_quantity r (quantity ro - quantity io) (set_quantity inc 0 b)"
      have pos': "0 < quantity ro - quantity io" using lt by (simp add: word_gt_0)
      from partial_post [OF wf io lv ro pos']
      have post: "book_wf [inc] ?b" "get_order ?b inc = Some (io\<lparr>quantity := 0\<rparr>)"
        "side_orders (opposite sd) ?b = ro\<lparr>quantity := quantity ro - quantity io\<rparr> # rs'"
        "side_orders sd ?b = side_orders sd b" "id_map ?b = id_map b"
        using rs' by auto
      have "match_loop g sd inc fs b = match_loop g sd inc (fs @ [?f]) ?b"
        by (rule match_loop_step(2) [OF match_step_partial [OF io lv pos ng ro ne lt]])
      also have "\<dots> = Some (?b, fs @ [?f])"
        using post(2) by (intro match_loop_step(1) match_step_stop) auto
      finally have loop: "match_loop g sd inc fs b = Some (?b, fs @ [?f])" .
      from am False lt r0 bp have "fills = [?f] \<and> q' = 0 \<and> rest = ro\<lparr>quantity := quantity ro - quantity io\<rparr> # rs'"
        by (auto split: if_splits)
      with loop post show ?thesis by auto
    qed
  qed
qed

subsection \<open>The loop implements the abstract matching\<close>

text \<open>
  A book with one resting sell order (id 1, 50 at 100, slot 1) and an incoming buy
  limit order (id 2, 30 at 100) constructed in slot 0: the first scenario of the spec.
\<close>


definition ex_sell :: "int Order" where
  "ex_sell = make_Order 1 1 100 50 SELL LIMIT"

definition ex_buy :: "int Order" where
  "ex_buy = make_Order 2 2 100 30 BUY LIMIT"

definition ex_book :: "int OrderBook" where
  "ex_book = \<lparr>pool = \<lparr>heap = [0 \<mapsto> ex_buy, 1 \<mapsto> ex_sell], next_free = \<lambda>_. None, free_list = None, capacity = 2\<rparr>,
     bids = [], asks = [(100, [1])], id_map = [1 \<mapsto> 1], max_orders = 2, active_orders = 1\<rparr>"

lemma ex_book_wf: "book_wf [0] ex_book"
proof -
  have fl: "pool_abs (pool ex_book) []" by (simp add: ex_book_def pool_abs_def)
  have r: "resting_ok ex_book SELL 100 1"
    by (simp add: resting_ok_def get_order_def ex_book_def ex_sell_def)
  have sw: "side_wf SELL ex_book" "side_wf BUY ex_book"
    using r by (simp_all add: side_wf_def ex_book_def)
  have ids: "\<forall>i s. id_map ex_book i = Some s \<longrightarrow>
      s \<in> set (book_slots ex_book) \<and> map_option order_id (get_order ex_book s) = Some i"
    by (simp add: ex_book_def book_slots_def get_order_def ex_sell_def)
  have "{..<2::nat} = {0, 1}" by auto
  then have p: "pool_inv (pool ex_book) ([0] @ book_slots ex_book)"
    using fl unfolding pool_inv_def by (intro exI [of _ "[]"]) (simp add: ex_book_def book_slots_def)
  have "unat (active_orders ex_book) = length (book_slots ex_book)"
    by (simp add: ex_book_def book_slots_def)
  with sw ids p show ?thesis by (simp add: book_wf_def)
qed

text \<open>
  C1: on a well-formed book with the incoming order constructed in its slot, the
  matching loop (either side, with or without the price gate) terminates without
  undefined behaviour, emits exactly the fills of the abstract matching of the
  incoming order against the opposite side in price-time priority, leaves the incoming
  order with the abstract remainder and the opposite side with the abstract rest,
  keeps the invariant and does not touch the incoming order's own side.
\<close>

theorem match_loop_refines:
  assumes "book_wf [inc] b" and "get_order b inc = Some io"
    and "amatch (gate_ok g sd (price io)) (order_id io) (quantity io) (side_orders (opposite sd) b) =
           (fills, q', rest)"
  shows "\<exists>b'. match_loop g sd inc fs b = Some (b', fs @ fills) \<and> book_wf [inc] b' \<and>
           get_order b' inc = Some (io\<lparr>quantity := q'\<rparr>) \<and> side_orders (opposite sd) b' = rest \<and>
           side_orders sd b' = side_orders sd b"
  using match_loop_amatch_aux [OF refl assms] by blast

theorem match_loop_refines_witness:
  "book_wf [0] ex_book \<and> get_order ex_book 0 = Some ex_buy \<and>
   amatch (gate_ok True BUY (price ex_buy)) (order_id ex_buy) (quantity ex_buy) (side_orders (opposite BUY) ex_book) =
     ([\<lparr>resting_id = 1, incoming_id = 2, fill_quantity = 30, fill_price = 100\<rparr>], 0, [ex_sell\<lparr>quantity := 20\<rparr>]) \<and>
   (\<exists>b'. match_loop True BUY 0 [] ex_book =
          Some (b', [\<lparr>resting_id = 1, incoming_id = 2, fill_quantity = 30, fill_price = 100\<rparr>]) \<and>
        book_wf [0] b' \<and> side_orders SELL b' = [ex_sell\<lparr>quantity := 20\<rparr>])"
proof -
  have g: "get_order ex_book 0 = Some ex_buy" by (simp add: get_order_def ex_book_def)
  have a: "amatch (gate_ok True BUY (price ex_buy)) (order_id ex_buy) (quantity ex_buy) (side_orders (opposite BUY) ex_book) =
     ([\<lparr>resting_id = 1, incoming_id = 2, fill_quantity = 30, fill_price = 100\<rparr>], 0, [ex_sell\<lparr>quantity := 20\<rparr>])"
    by (simp add: side_orders_def get_order_def ex_book_def ex_sell_def ex_buy_def gate_ok_def)
  from match_loop_refines [OF ex_book_wf g a, of "[]"] have
    "\<exists>b'. match_loop True BUY 0 [] ex_book =
          Some (b', [\<lparr>resting_id = 1, incoming_id = 2, fill_quantity = 30, fill_price = 100\<rparr>]) \<and>
        book_wf [0] b' \<and> side_orders SELL b' = [ex_sell\<lparr>quantity := 20\<rparr>]" by auto
  with ex_book_wf g a show ?thesis by blast
qed
subsection \<open>The variant of the loop\<close>

text \<open>
  C13: termination of the matching loop by a variant.  On a well-formed book, an
  iteration that does not exit keeps the invariant and the incoming order, and strictly
  decreases \<open>loop_measure\<close>: a filled resting order leaves the opposite side, or the
  incoming order is filled.
\<close>

theorem match_step_variant:
  assumes wf: "book_wf [inc] b" and io: "get_order b inc = Some io"
    and st: "match_step g sd inc fs b = Some (Inr (b', fs'))"
  shows "book_wf [inc] b' \<and> get_order b' inc \<noteq> None \<and> loop_measure sd inc b' < loop_measure sd inc b"
proof -
  have "levels_of (opposite sd) b \<noteq> []"
    using match_step_stop [OF io, of sd _ g fs] st by auto
  then obtain bp r q lv where lv: "levels_of (opposite sd) b = (bp, r # q) # lv"
    using levels_front [OF wf] by blast
  from front_order [OF wf lv] obtain ro where ro: "get_order b r = Some ro" and bp: "price ro = bp"
    and ne: "r \<noteq> inc" by blast
  have pos: "0 < quantity io" and ng: "gate_ok g sd (price io) bp"
    using match_step_stop [OF io, of sd bp g fs] st lv by (auto simp: word_gt_0)
  have len: "length (side_orders (opposite sd) b) = Suc (length (tl (side_orders (opposite sd) b)))"
    using lv by (simp add: side_orders_front)
  show ?thesis
  proof (cases "quantity ro \<le> quantity io")
    case True
    then have "b' = retire_front (opposite sd) (order_id ro) r
                (set_quantity r 0 (set_quantity inc (quantity io - quantity ro) b))"
      using match_step_exhaust [OF io lv pos ng ro ne] st by simp
    with exhaust_post [OF wf io lv ro, of "quantity io - quantity ro"] len pos show ?thesis
      by (auto simp: loop_measure_def word_gt_0 io)
  next
    case False
    then have lt: "quantity io < quantity ro" by simp
    then have "b' = set_quantity r (quantity ro - quantity io) (set_quantity inc 0 b)"
      using match_step_partial [OF io lv pos ng ro ne] st by simp
    moreover have "0 < quantity ro - quantity io" using lt by (simp add: word_gt_0)
    ultimately show ?thesis using partial_post [OF wf io lv ro] len pos
      by (auto simp: loop_measure_def side_orders_front lv io)
  qed
qed

theorem match_step_variant_witness:
  "book_wf [0] ex_book \<and> get_order ex_book 0 = Some ex_buy \<and>
   match_step True BUY 0 [] ex_book =
     Some (Inr (set_quantity 1 20 (set_quantity 0 0 ex_book),
                [\<lparr>resting_id = 1, incoming_id = 2, fill_quantity = 30, fill_price = 100\<rparr>])) \<and>
   (book_wf [0] (set_quantity 1 20 (set_quantity 0 0 ex_book)) \<and>
    get_order (set_quantity 1 20 (set_quantity 0 0 ex_book)) 0 \<noteq> None \<and>
    loop_measure BUY 0 (set_quantity 1 20 (set_quantity 0 0 ex_book)) < loop_measure BUY 0 ex_book)"
proof -
  have g: "get_order ex_book 0 = Some ex_buy" by (simp add: get_order_def ex_book_def)
  have lv: "levels_of (opposite BUY) ex_book = (100, [1]) # []" by (simp add: ex_book_def)
  have r: "get_order ex_book 1 = Some ex_sell" by (simp add: get_order_def ex_book_def)
  have gate: "gate_ok True BUY (price ex_buy) 100" by (simp add: gate_ok_def ex_buy_def)
  have "match_step True BUY 0 [] ex_book =
     Some (Inr (set_quantity 1 (quantity ex_sell - quantity ex_buy) (set_quantity 0 0 ex_book),
                [\<lparr>resting_id = order_id ex_sell, incoming_id = order_id ex_buy,
                  fill_quantity = quantity ex_buy, fill_price = 100\<rparr>]))"
    using match_step_partial [OF g lv _ gate r] by (simp add: ex_buy_def ex_sell_def)
  then have st: "match_step True BUY 0 [] ex_book =
     Some (Inr (set_quantity 1 20 (set_quantity 0 0 ex_book),
                [\<lparr>resting_id = 1, incoming_id = 2, fill_quantity = 30, fill_price = 100\<rparr>]))"
    by (simp add: ex_buy_def ex_sell_def)
  show ?thesis using ex_book_wf g st match_step_variant [OF ex_book_wf g st] by blast
qed

end
