(* ===== verification/Order_Book.thy ===== *)
theory Order_Book
  imports Matching
begin

text \<open>
  The parts of \<open>class OrderBook\<close> (\<open>src/src/OrderBook.cpp\<close>) that submission and
  cancellation share: the constructor, \<open>addToBook\<close> (resting an order at the back of its
  price level) and \<open>totalActiveOrders\<close>; the abstract priority insertion \<open>ains\<close> that
  \<open>addToBook\<close> implements on a well-formed side; frame lemmas for the invariant; and the
  properties of the constructor and of the active-order counter.
\<close>

text \<open>
  \<open>OrderBook(max_orders)\<close> constructs its pool first: the pool constructor's
  \<open>std::bad_alloc\<close> propagates, and its undefined behaviour is the book's.
\<close>

definition OrderBook_ctor :: "nat \<Rightarrow> size_t \<Rightarrow> exn + 'p OrderBook option" where
  "OrderBook_ctor mem max_orders' =
     map_sum id
       (map_option (\<lambda>p. \<lparr>pool = p, bids = [], asks = [], id_map = Map.empty,
                         max_orders = max_orders', active_orders = 0\<rparr>))
       (MemoryPool_ctor mem max_orders')"

definition addToBook :: "slot \<Rightarrow> 'p::linorder OrderBook \<Rightarrow> 'p OrderBook option" where
  "addToBook s b = do {
     od \<leftarrow> get_order b s;
     Some (case side od of
             BUY \<Rightarrow> b\<lparr>bids := lv_push_back (>) (price od) s (bids b)\<rparr>
           | SELL \<Rightarrow> b\<lparr>asks := lv_push_back (<) (price od) s (asks b)\<rparr>)
   }"

definition totalActiveOrders :: "'p OrderBook \<Rightarrow> size_t" where
  "totalActiveOrders b = active_orders b"

text \<open>
  One side of the book seen as its list of resting orders in price-time priority
  (\<open>side_orders\<close>).  Resting a limit order inserts it behind every order whose price is
  not worse: before the first strictly worse price, so behind equal prices, which is
  time priority.
\<close>

fun ains :: "('p \<Rightarrow> 'p \<Rightarrow> bool) \<Rightarrow> 'p Order \<Rightarrow> 'p Order list \<Rightarrow> 'p Order list" where
  "ains lt od [] = [od]"
| "ains lt od (r # rs) = (if lt (price od) (price r) then od # r # rs else r # ains lt od rs)"

subsection \<open>Priority insertion\<close>

text \<open>\<open>m[price].push_back(s)\<close> on a well-formed side is the priority insertion \<open>ains\<close>.\<close>

lemma ains_skip:
  "\<forall>r \<in> set xs. \<not> lt (price od) (price r) \<Longrightarrow> ains lt od (xs @ ys) = xs @ ains lt od ys"
  by (induction xs) auto

lemma ains_front:
  "ys = [] \<or> lt (price od) (price (hd ys)) \<Longrightarrow> ains lt od ys = od # ys"
  by (cases ys) auto

lemma lv_push_back_orders:
  assumes st: "strict_total lt" and srt: "sorted_wrt lt (map fst lv)"
    and lv: "\<forall>(k', q) \<in> set lv. q \<noteq> [] \<and> (\<forall>s \<in> set q. \<exists>o'. H s = Some o' \<and> price o' = k')"
    and od: "H s' = Some od" "price od = k"
  shows "map (\<lambda>s. the (H s)) (lv_slots (lv_push_back lt k s' lv)) =
         ains lt od (map (\<lambda>s. the (H s)) (lv_slots lv))"
  using srt lv
proof (induction lv)
  case Nil
  with od show ?case by simp
next
  case (Cons e lv)
  obtain k' q where e: "e = (k', q)" by (cases e)
  from st have irr: "\<And>a. \<not> lt a a" and asym: "\<And>a b. lt a b \<Longrightarrow> \<not> lt b a"
    unfolding strict_total_def by blast+
  from Cons.prems e have q: "q \<noteq> []" and qp: "\<forall>s \<in> set q. price (the (H s)) = k'"
    by auto
  let ?m = "\<lambda>ss. map (\<lambda>s. the (H s)) ss"
  show ?case
  proof (cases "lt k k'")
    case True
    with q qp od have "ains lt od (?m (q @ lv_slots lv)) = od # ?m (q @ lv_slots lv)"
      by (intro ains_front) (auto simp: neq_Nil_conv)
    with True e od show ?thesis by simp
  next
    case False
    show ?thesis
    proof (cases "k = k'")
      case True
      have skip: "ains lt od (?m q @ ?m (lv_slots lv)) = ?m q @ ains lt od (?m (lv_slots lv))"
        using qp od True irr by (intro ains_skip) auto
      have "ains lt od (?m (lv_slots lv)) = od # ?m (lv_slots lv)"
      proof (rule ains_front)
        show "?m (lv_slots lv) = [] \<or> lt (price od) (price (hd (?m (lv_slots lv))))"
        proof (cases lv)
          case (Cons e' lv')
          obtain k'' q'' where e': "e' = (k'', q'')" by (cases e')
          from Cons.prems e Cons e' have "lt k' k''" and "q'' \<noteq> []"
            and "\<forall>s \<in> set q''. price (the (H s)) = k''" by auto
          with True od Cons e' show ?thesis by (auto simp: neq_Nil_conv)
        qed simp
      qed
      with skip True e od irr show ?thesis by simp
    next
      case neq: False
      with False st have "lt k' k" unfolding strict_total_def by blast
      then have "\<forall>r \<in> set (?m q). \<not> lt (price od) (price r)"
        using qp od asym by auto
      then have "ains lt od (?m q @ ?m (lv_slots lv)) = ?m q @ ains lt od (?m (lv_slots lv))"
        by (rule ains_skip)
      with False neq Cons.IH Cons.prems e show ?thesis by simp
    qed
  qed
qed

subsection \<open>Frame lemmas\<close>

lemma book_field_updates [simp]:
  "levels_of sd (b\<lparr>id_map := m\<rparr>) = levels_of sd b"
  "levels_of sd (b\<lparr>active_orders := n\<rparr>) = levels_of sd b"
  "levels_of sd (b\<lparr>pool := p\<rparr>) = levels_of sd b"
  "get_order (b\<lparr>id_map := m\<rparr>) = get_order b"
  "get_order (b\<lparr>active_orders := n\<rparr>) = get_order b"
  by (cases sd; simp add: get_order_def fun_eq_iff)+

lemma strict_total_side_cmp [simp]: "strict_total (side_cmp sd)"
  by (cases sd) simp_all

lemma pool_inv_construct_order [simp]:
  "x \<in> set owned \<Longrightarrow> pool_inv (construct_order x od p) owned = pool_inv p owned"
  by (rule pool_inv_next_free_owned) (simp_all add: construct_order_def)

lemma book_wf_frame:
  assumes wf: "book_wf xs b"
    and heap: "\<forall>s \<in> set (book_slots b). get_order b' s = get_order b s"
    and f: "id_map b' = id_map b" "bids b' = bids b" "asks b' = asks b" "active_orders b' = active_orders b"
    and p: "pool_inv (pool b') (xs' @ book_slots b)"
  shows "book_wf xs' b'"
proof -
  have bs: "book_slots b' = book_slots b" using f by (simp add: book_slots_def)
  have lv: "levels_of sd b' = levels_of sd b" for sd using f by (cases sd) simp_all
  have "side_wf sd b'" for sd
  proof -
    have sw: "side_wf sd b" using wf by (cases sd) (simp_all add: book_wf_def)
    have "resting_ok b' sd k s = resting_ok b sd k s" if "(k, q) \<in> set (levels_of sd b)" "s \<in> set q" for k q s
      using heap slot_in_book [OF that] f(1) by (simp add: resting_ok_def split: option.splits)
    with sw show ?thesis unfolding side_wf_def lv by fastforce
  qed
  moreover have "\<forall>i s. id_map b' i = Some s \<longrightarrow>
      s \<in> set (book_slots b') \<and> map_option order_id (get_order b' s) = Some i"
    using wf heap f(1) bs by (auto simp: book_wf_def)
  ultimately show ?thesis using wf f p bs by (simp add: book_wf_def)
qed

lemma side_wf_transfer:
  assumes "side_wf sd b" and "levels_of sd b' = levels_of sd b"
    and "\<And>k q s. (k, q) \<in> set (levels_of sd b) \<Longrightarrow> s \<in> set q \<Longrightarrow> resting_ok b' sd k s"
  shows "side_wf sd b'"
  using assms unfolding side_wf_def by fastforce

lemma resting_ok_fresh_id:
  "resting_ok b sd k s \<Longrightarrow> id_map b i = None \<Longrightarrow> get_order b' = get_order b \<Longrightarrow>
   id_map b' = (id_map b)(i \<mapsto> x) \<Longrightarrow> resting_ok b' sd k s"
  by (auto simp: resting_ok_def split: option.splits)

subsection \<open>Resting an order\<close>

lemma addToBook_push:
  "get_order b s = Some od \<Longrightarrow>
   addToBook s b = Some (map_levels (side od) (lv_push_back (side_cmp (side od)) (price od) s) b)"
  by (cases "side od") (simp_all add: addToBook_def)

lemma book_slots_push:
  "\<exists>xs ys. book_slots b = xs @ ys \<and> book_slots (map_levels sd (lv_push_back lt k s) b) = xs @ s # ys"
proof (cases sd)
  case BUY
  obtain xs ys where "lv_slots (bids b) = xs @ ys" "lv_slots (lv_push_back lt k s (bids b)) = xs @ s # ys"
    using lv_push_back_slots [of "bids b" lt k s] by (elim exE conjE)
  then have "book_slots b = xs @ (ys @ lv_slots (asks b))"
    "book_slots (map_levels sd (lv_push_back lt k s) b) = xs @ s # (ys @ lv_slots (asks b))"
    using BUY by (simp_all add: book_slots_def)
  then show ?thesis by (intro exI conjI)
next
  case SELL
  obtain xs ys where "lv_slots (asks b) = xs @ ys" "lv_slots (lv_push_back lt k s (asks b)) = xs @ s # ys"
    using lv_push_back_slots [of "asks b" lt k s] by (elim exE conjE)
  then have "book_slots b = (lv_slots (bids b) @ xs) @ ys"
    "book_slots (map_levels sd (lv_push_back lt k s) b) = (lv_slots (bids b) @ xs) @ s # ys"
    using SELL by (simp_all add: book_slots_def)
  then show ?thesis by (intro exI conjI)
qed

lemma active_succ:
  assumes "book_wf [inc] b"
  shows "unat (active_orders b + 1) = Suc (length (book_slots b))"
proof -
  have a: "unat (active_orders b) = length (book_slots b)" and
    p: "pool_inv (pool b) (inc # book_slots b)"
    using assms by (simp_all add: book_wf_def)
  have "length (inc # book_slots b) \<le> unat (capacity (pool b))"
    using pool_inv_length [OF p] .
  moreover have "unat (capacity (pool b)) < 2 ^ LENGTH(64)" by (rule unsigned_less)
  ultimately have "unat (active_orders b) + unat (1 :: size_t) < 2 ^ LENGTH(64)"
    using a by simp
  then have "unat (active_orders b + 1) = unat (active_orders b) + unat (1 :: size_t)"
    by (rule unat_add_lem [THEN iffD1])
  then show ?thesis using a by simp
qed

lemma rest_wf:
  assumes wf: "book_wf [inc] b" and io: "get_order b inc = Some io"
    and lim: "otype io = LIMIT" and pos: "0 < quantity io" and fresh: "id_map b (order_id io) = None"
  defines "b4 \<equiv> (map_levels (side io) (lv_push_back (side_cmp (side io)) (price io) inc) b)
                  \<lparr>id_map := (id_map b)(order_id io \<mapsto> inc), active_orders := active_orders b + 1\<rparr>"
  shows "book_wf [] b4"
proof -
  define sd where "sd = side io"
  have g: "get_order b4 = get_order b" by (simp add: b4_def get_order_def fun_eq_iff)
  have im: "id_map b4 = (id_map b)(order_id io \<mapsto> inc)" by (simp add: b4_def)
  have lv: "levels_of sd' b4 =
      (if sd' = sd then lv_push_back (side_cmp sd) (price io) inc (levels_of sd b) else levels_of sd' b)" for sd'
    by (cases sd'; cases sd) (simp_all add: b4_def sd_def)
  obtain xs ys where bs: "book_slots b = xs @ ys" "book_slots b4 = xs @ inc # ys"
    using book_slots_push [of b sd "side_cmp sd" "price io" inc]
    by (auto simp: b4_def sd_def book_slots_def)
  have old: "resting_ok b4 sd' k s" if "resting_ok b sd' k s" for sd' k s
    using resting_ok_fresh_id [OF that fresh g im] .
  have new: "resting_ok b4 sd (price io) inc"
    using io lim pos by (simp add: resting_ok_def g im sd_def)
  have sw: "side_wf sd' b" for sd' using wf by (cases sd') (simp_all add: book_wf_def)
  have "side_wf sd' b4" for sd'
  proof (cases "sd' = sd")
    case True
    have "sorted_wrt (side_cmp sd) (map fst (levels_of sd b4))"
      using sw [of sd] by (simp add: lv side_wf_def sorted_lv_push_back)
    moreover have "q' \<noteq> [] \<and> (\<forall>s \<in> set q'. resting_ok b4 sd k' s)"
      if "(k', q') \<in> set (levels_of sd b4)" for k' q'
    proof -
      from that have "(k', q') \<in> set (lv_push_back (side_cmp sd) (price io) inc (levels_of sd b))"
        by (simp add: lv)
      from lv_push_back_queues [OF this] show ?thesis
        using side_wf_slot [OF sw [of sd]] sw [of sd] old new by (fastforce simp: side_wf_def)
    qed
    ultimately show ?thesis using True by (auto simp: side_wf_def)
  next
    case False
    show ?thesis
      by (rule side_wf_transfer [OF sw]) (use False lv side_wf_slot [OF sw] old in auto)
  qed
  moreover have "s \<in> set (book_slots b4) \<and> map_option order_id (get_order b4 s) = Some j"
    if "id_map b4 j = Some s" for j s
    using that wf io bs by (auto simp: im g book_wf_def split: if_splits)
  moreover have "unat (active_orders b4) = length (book_slots b4)"
    using active_succ [OF wf] bs by (simp add: b4_def)
  moreover have "pool_inv (pool b4) ([] @ book_slots b4)"
  proof -
    have "pool_inv (pool b) ([inc] @ book_slots b)" using wf by (simp add: book_wf_def)
    moreover have "pool_inv (pool b) ([inc] @ book_slots b) = pool_inv (pool b) ([] @ book_slots b4)"
      by (rule pool_inv_cong) (auto simp: bs)
    ultimately show ?thesis by (simp add: b4_def)
  qed
  ultimately show ?thesis unfolding book_wf_def by blast
qed

lemma rest_orders:
  assumes wf: "book_wf [inc] b" and io: "get_order b inc = Some io"
  shows "side_orders (side io) (map_levels (side io) (lv_push_back (side_cmp (side io)) (price io) inc) b) =
           ains (side_cmp (side io)) io (side_orders (side io) b) \<and>
         side_orders (opposite (side io)) (map_levels (side io) (lv_push_back (side_cmp (side io)) (price io) inc) b) =
           side_orders (opposite (side io)) b"
proof -
  have sw: "side_wf (side io) b" using wf by (cases "side io") (simp_all add: book_wf_def)
  have "\<forall>(k', q) \<in> set (levels_of (side io) b). q \<noteq> [] \<and>
          (\<forall>s \<in> set q. \<exists>o'. get_order b s = Some o' \<and> price o' = k')"
    using sw by (fastforce simp: side_wf_def resting_ok_def split: option.splits)
  then have "map (\<lambda>s. the (get_order b s)) (lv_slots (lv_push_back (side_cmp (side io)) (price io) inc (levels_of (side io) b))) =
      ains (side_cmp (side io)) io (map (\<lambda>s. the (get_order b s)) (lv_slots (levels_of (side io) b)))"
    using sw io by (intro lv_push_back_orders) (simp_all add: side_wf_def)
  then show ?thesis by (simp add: side_orders_def)
qed

text \<open>Releasing the in-flight slot of a well-formed book closes the invariant.\<close>

lemma release_in_flight:
  assumes "book_wf [inc] b"
  shows "book_wf [] (b\<lparr>pool := deallocate (Some inc) (pool b)\<rparr>) \<and>
         side_orders sd (b\<lparr>pool := deallocate (Some inc) (pool b)\<rparr>) = side_orders sd b"
proof -
  have "pool_inv (pool b) (inc # book_slots b)" using assms by (simp add: book_wf_def)
  then have "pool_inv (deallocate (Some inc) (pool b)) ([] @ book_slots b)"
    by (simp add: deallocate_inv)
  then have "book_wf [] (b\<lparr>pool := deallocate (Some inc) (pool b)\<rparr>)"
    by (intro book_wf_frame [OF assms]) (auto simp: get_order_def)
  moreover have "side_orders sd (b\<lparr>pool := deallocate (Some inc) (pool b)\<rparr>) = side_orders sd b"
    by (cases sd) (simp_all add: side_orders_def get_order_def)
  ultimately show ?thesis by blast
qed

text \<open>
  A book with one resting order: the book of the matching example with its in-flight
  slot released, so the sell order \<open>ex_sell\<close> (id 1, 50 at 100) rests alone.
\<close>

definition ex_rest :: "int OrderBook" where
  "ex_rest = ex_book\<lparr>pool := deallocate (Some 0) (pool ex_book)\<rparr>"

lemma ex_rest_wf: "book_wf [] ex_rest"
  unfolding ex_rest_def using release_in_flight [OF ex_book_wf] by blast

lemma book_slot_order:
  assumes wf: "book_wf xs b" and x: "x \<in> set (book_slots b)"
  shows "\<exists>sd k q ox. (k, q) \<in> set (levels_of sd b) \<and> x \<in> set q \<and> get_order b x = Some ox \<and>
           side ox = sd \<and> price ox = k \<and> id_map b (order_id ox) = Some x"
proof -
  obtain sd where "x \<in> set (lv_slots (levels_of sd b))"
    using x book_slots_side by blast
  then obtain k q where kq: "(k, q) \<in> set (levels_of sd b)" "x \<in> set q"
    using lv_slot_level by blast
  have "side_wf sd b" using wf by (cases sd) (simp_all add: book_wf_def)
  then have "resting_ok b sd k x" using kq by (rule side_wf_slot)
  then show ?thesis using kq by (auto simp: resting_ok_def split: option.splits)
qed

lemma book_wf_empty:
  "pool_inv p [] \<Longrightarrow>
   book_wf [] \<lparr>pool = p, bids = [], asks = [], id_map = Map.empty, max_orders = m, active_orders = 0\<rparr>"
  by (simp add: book_wf_def side_wf_def book_slots_def)

definition B3 :: "int OrderBook" where
  "B3 = \<lparr>pool = P3, bids = [], asks = [], id_map = Map.empty, max_orders = 3, active_orders = 0\<rparr>"

text \<open>The examples run on a machine that provides \<open>PTRDIFF_MAX\<close> bytes.\<close>

lemma OrderBook_ctor_3: "OrderBook_ctor PTRDIFF_MAX 3 = Inr (Some B3)"
  by (simp add: OrderBook_ctor_def MemoryPool_ctor_P3 B3_def)

lemma B3_wf: "book_wf [] B3"
  unfolding B3_def by (rule book_wf_empty) (use MemoryPool_ctor_inv [OF MemoryPool_ctor_P3] in blast)

text \<open>A constructed book is empty and well-formed.\<close>

lemma OrderBook_ctor_Some:
  assumes "OrderBook_ctor mem n = Inr (Some b)"
  obtains p where "MemoryPool_ctor mem n = Inr (Some p)"
    and "b = \<lparr>pool = p, bids = [], asks = [], id_map = Map.empty, max_orders = n, active_orders = 0\<rparr>"
  using assms by (cases "MemoryPool_ctor mem n :: exn + 'a MemoryPool option") (auto simp: OrderBook_ctor_def)

lemma OrderBook_ctor_fits:
  assumes "operator_new mem (unat cap * sizeof_Order)"
  shows "\<exists>b. OrderBook_ctor mem cap = Inr (Some b)"
proof -
  obtain p :: "'a MemoryPool" where "MemoryPool_ctor mem cap = Inr (Some p)"
    using MemoryPool_ctor_fits [OF assms] by blast
  then show ?thesis by (simp add: OrderBook_ctor_def)
qed

lemma OrderBook_ctor_book_wf:
  assumes "OrderBook_ctor mem n = Inr (Some b)"
  shows "book_wf [] b \<and> id_map b = Map.empty"
proof -
  obtain p where p: "MemoryPool_ctor mem n = Inr (Some p)"
    and b: "b = \<lparr>pool = p, bids = [], asks = [], id_map = Map.empty, max_orders = n, active_orders = 0\<rparr>"
    using OrderBook_ctor_Some [OF assms] by blast
  have "pool_inv p []" using MemoryPool_ctor_inv [OF p] by blast
  then show ?thesis using book_wf_empty [of p n] b by simp
qed

subsection \<open>Properties of the constructor\<close>

text \<open>
  C7: the constructor \<open>OrderBook(max_orders)\<close>, when it returns a book (no exception and
  no undefined behaviour), yields an empty, well-formed book whose pool has the requested
  capacity.
\<close>

theorem OrderBook_ctor_wf:
  assumes "OrderBook_ctor mem n = Inr (Some b)"
  shows "book_wf [] b \<and> side_orders BUY b = [] \<and> side_orders SELL b = [] \<and>
         totalActiveOrders b = 0 \<and> capacity (pool b) = n \<and> max_orders b = n"
proof -
  obtain p where p: "MemoryPool_ctor mem n = Inr (Some p)"
    and b: "b = \<lparr>pool = p, bids = [], asks = [], id_map = Map.empty, max_orders = n, active_orders = 0\<rparr>"
    using OrderBook_ctor_Some [OF assms] by blast
  have "capacity p = n" using MemoryPool_ctor_inv [OF p] by blast
  then show ?thesis using OrderBook_ctor_book_wf [OF assms] b
    by (simp add: side_orders_def totalActiveOrders_def)
qed

theorem OrderBook_ctor_wf_witness:
  "OrderBook_ctor PTRDIFF_MAX 3 = Inr (Some B3) \<and>
   (book_wf [] B3 \<and> side_orders BUY B3 = [] \<and> side_orders SELL B3 = [] \<and>
    totalActiveOrders B3 = 0 \<and> capacity (pool B3) = 3 \<and> max_orders B3 = 3)"
  using OrderBook_ctor_3 OrderBook_ctor_wf [OF OrderBook_ctor_3] by blast

subsection \<open>The active-order counter\<close>

text \<open>
  C8: on a well-formed book (between calls or during matching), \<open>totalActiveOrders()\<close>
  equals the number of resting orders on both sides and the number of ids in the index.
\<close>

theorem totalActiveOrders_count:
  assumes wf: "book_wf xs b"
  shows "unat (totalActiveOrders b) = length (side_orders BUY b) + length (side_orders SELL b) \<and>
         card (dom (id_map b)) = unat (totalActiveOrders b)"
proof -
  let ?f = "\<lambda>s. order_id (the (get_order b s))"
  have a: "unat (totalActiveOrders b) = length (book_slots b)"
    using wf by (simp add: book_wf_def totalActiveOrders_def)
  have d: "distinct (book_slots b)" using book_wf_distinct [OF wf] by simp
  have dom: "dom (id_map b) = ?f ` set (book_slots b)"
  proof
    show "dom (id_map b) \<subseteq> ?f ` set (book_slots b)"
    proof
      fix i assume "i \<in> dom (id_map b)"
      then obtain s where "id_map b i = Some s" by blast
      then have "s \<in> set (book_slots b)" "map_option order_id (get_order b s) = Some i"
        using wf by (auto simp: book_wf_def)
      then show "i \<in> ?f ` set (book_slots b)" by force
    qed
    show "?f ` set (book_slots b) \<subseteq> dom (id_map b)"
      using book_slot_order [OF wf] by force
  qed
  have "inj_on ?f (set (book_slots b))"
  proof (rule inj_onI)
    fix s1 s2 assume "s1 \<in> set (book_slots b)" "s2 \<in> set (book_slots b)" and eq: "?f s1 = ?f s2"
    then obtain o1 o2 where "get_order b s1 = Some o1" "id_map b (order_id o1) = Some s1"
      "get_order b s2 = Some o2" "id_map b (order_id o2) = Some s2"
      using book_slot_order [OF wf] by meson
    with eq show "s1 = s2" by simp
  qed
  then have "card (dom (id_map b)) = length (book_slots b)"
    using d by (simp add: dom card_image distinct_card)
  then show ?thesis using a by (simp add: side_orders_def book_slots_def)
qed

theorem totalActiveOrders_count_witness:
  "book_wf [] ex_rest \<and>
   (unat (totalActiveOrders ex_rest) = length (side_orders BUY ex_rest) + length (side_orders SELL ex_rest) \<and>
    card (dom (id_map ex_rest)) = unat (totalActiveOrders ex_rest)) \<and>
   unat (totalActiveOrders ex_rest) = 1"
proof -
  have "unat (totalActiveOrders ex_rest) = 1"
    by (simp add: totalActiveOrders_def ex_rest_def ex_book_def)
  then show ?thesis using ex_rest_wf totalActiveOrders_count [OF ex_rest_wf] by blast
qed

subsection \<open>The resting orders\<close>

lemma resting_order_fields:
  assumes "book_wf xs b" and "s \<in> set (lv_slots (levels_of sd b))"
  shows "\<exists>k od. get_order b s = Some od \<and> side od = sd \<and> price od = k \<and> otype od = LIMIT \<and> 0 < quantity od"
proof -
  obtain k q where kq: "(k, q) \<in> set (levels_of sd b)" "s \<in> set q" using lv_slot_level [OF assms(2)] by blast
  have "side_wf sd b" using assms(1) by (cases sd) (simp_all add: book_wf_def)
  then have "resting_ok b sd k s" using kq by (rule side_wf_slot)
  then show ?thesis by (auto simp: resting_ok_def split: option.splits)
qed

lemma side_orders_fields:
  "book_wf xs b \<Longrightarrow> r \<in> set (side_orders sd b) \<Longrightarrow> side r = sd \<and> otype r = LIMIT \<and> 0 < quantity r"
  using resting_order_fields [of xs b] by (fastforce simp: side_orders_def)

subsection \<open>Price-time priority of resting\<close>

lemma ains_takeWhile:
  "ains lt od xs = takeWhile (\<lambda>r. \<not> lt (price od) (price r)) xs @ od # dropWhile (\<lambda>r. \<not> lt (price od) (price r)) xs"
  by (induction xs) auto

text \<open>
  C18: price-time priority (spec section 8): on a well-formed book, \<open>addToBook\<close> places
  the order behind every resting order of its side whose price is not worse (in
  particular behind every order already resting at the same price: first in, first out)
  and ahead of all the others.
\<close>

theorem addToBook_priority:
  assumes wf: "book_wf [inc] b" and io: "get_order b inc = Some io"
  shows "\<exists>b'. addToBook inc b = Some b' \<and>
           side_orders (side io) b' =
             takeWhile (\<lambda>r. \<not> side_cmp (side io) (price io) (price r)) (side_orders (side io) b) @ io #
             dropWhile (\<lambda>r. \<not> side_cmp (side io) (price io) (price r)) (side_orders (side io) b)"
  using addToBook_push [OF io] rest_orders [OF wf io] by (simp add: ains_takeWhile)

theorem addToBook_priority_witness:
  "book_wf [0] ex_book \<and> get_order ex_book 0 = Some ex_buy \<and>
   (\<exists>b'. addToBook 0 ex_book = Some b' \<and>
      side_orders (side ex_buy) b' =
        takeWhile (\<lambda>r. \<not> side_cmp (side ex_buy) (price ex_buy) (price r)) (side_orders (side ex_buy) ex_book) @ ex_buy #
        dropWhile (\<lambda>r. \<not> side_cmp (side ex_buy) (price ex_buy) (price r)) (side_orders (side ex_buy) ex_book))"
proof -
  have g: "get_order ex_book 0 = Some ex_buy" by (simp add: get_order_def ex_book_def)
  show ?thesis using ex_book_wf g addToBook_priority [OF ex_book_wf g] by blast
qed

end
