(* ===== verification/Submission.thy ===== *)
theory Submission
  imports Order_Book
begin

text \<open>
  \<open>OrderBook::processOrder\<close> (\<open>src/src/OrderBook.cpp\<close>): allocate a slot, construct
  the incoming order in it, match it (\<open>matchMarketOrder\<close> or \<open>matchLimitOrder\<close>), then
  rest a positive limit remainder (\<open>addToBook\<close>, the id index and the counter) or release
  the slot.  The abstract submission \<open>asubmit\<close> states what this does to the two sides
  of the book; \<open>processOrder_refines\<close> proves the implementation against it.
\<close>

definition processOrder ::
  "u64 \<Rightarrow> u64 \<Rightarrow> 'p \<Rightarrow> u32 \<Rightarrow> side \<Rightarrow> order_type \<Rightarrow> 'p::linorder OrderBook \<Rightarrow>
   ('p OrderBook \<times> 'p Fill list) option"
where
  "processOrder i ts pr qty sd ty b =
     (let fills = [];
          (p1, incoming) = allocate (pool b)
      in case incoming of
           None \<Rightarrow> Some (b\<lparr>pool := p1\<rparr>, fills)
         | Some inc \<Rightarrow> do {
             let b1 = b\<lparr>pool := construct_order inc (make_Order i ts pr qty sd ty) p1\<rparr>;
             (b2, fills2) \<leftarrow> (if ty = MARKET then matchMarketOrder inc fills b1
                                else matchLimitOrder inc fills b1);
             io \<leftarrow> get_order b2 inc;
             if otype io = LIMIT \<and> 0 < quantity io then do {
               b3 \<leftarrow> addToBook inc b2;
               io3 \<leftarrow> get_order b3 inc;
               Some (b3\<lparr>id_map := (id_map b3)(order_id io3 \<mapsto> inc),
                        active_orders := active_orders b3 + 1\<rparr>, fills2)
             }
             else Some (b2\<lparr>pool := deallocate (Some inc) (pool b2)\<rparr>, fills2)
           })"

text \<open>
  A submission (spec section 4) matches the order against the opposite side by
  \<open>amatch\<close>, gated by its limit price when it is a limit order, and rests the remainder of a
  limit order on its own side; a market order's remainder is dropped.
\<close>

definition asubmit ::
  "'p::linorder Order \<Rightarrow> 'p Order list \<Rightarrow> 'p Order list \<Rightarrow> 'p Fill list \<times> 'p Order list \<times> 'p Order list"
where
  "asubmit od own opp =
     (let (fs, q', rest) = amatch (gate_ok (otype od = LIMIT) (side od) (price od)) (order_id od) (quantity od) opp
      in (fs, if otype od = LIMIT \<and> 0 < q' then ains (side_cmp (side od)) (od\<lparr>quantity := q'\<rparr>) own else own, rest))"

subsection \<open>The steps of a submission\<close>

text \<open>
  \<open>processOrder\<close> in four steps: allocating and constructing the incoming order makes it
  the in-flight slot of the invariant; matching is \<open>match_loop_amatch_aux\<close>; resting a
  positive limit remainder (\<open>addToBook\<close>, the id index and the counter) closes the
  invariant again when the id is fresh; otherwise the slot is released.
\<close>

lemma submit_construct:
  fixes od :: "'p::linorder Order"
  assumes wf: "book_wf [] b" and al: "allocate (pool b) = (p1, Some inc)"
  defines "b1 \<equiv> b\<lparr>pool := construct_order inc od p1\<rparr>"
  shows "book_wf [inc] b1 \<and> get_order b1 inc = Some od \<and> side_orders sd b1 = side_orders sd b \<and>
         id_map b1 = id_map b"
proof -
  have pi: "pool_inv (pool b) (book_slots b)" using wf by (simp add: book_wf_def)
  from allocate_inv [OF pi al] have p1: "pool_inv p1 (inc # book_slots b)"
    and fresh: "inc \<notin> set (book_slots b)" by auto
  have h: "heap p1 = heap (pool b)" using pool_ops_heap(1) [of "pool b"] al by simp
  have g: "get_order b1 s = (if s = inc then Some od else get_order b s)" for s
    by (simp add: b1_def get_order_def construct_order_def h)
  have "pool_inv (pool b1) ([inc] @ book_slots b)"
    using p1 by (simp add: b1_def)
  then have "book_wf [inc] b1"
    using fresh g by (intro book_wf_frame [OF wf]) (auto simp: b1_def)
  moreover have "side_orders sd b1 = side_orders sd b"
  proof -
    have "inc \<notin> set (lv_slots (levels_of sd b))" using fresh slots_side_book by blast
    moreover have "levels_of sd b1 = levels_of sd b" by (cases sd) (simp_all add: b1_def)
    ultimately show ?thesis by (auto simp: side_orders_def g)
  qed
  ultimately show ?thesis using g by (simp add: b1_def)
qed

lemma match_by_type:
  "get_order b inc = Some od \<Longrightarrow>
   (if ty = MARKET then matchMarketOrder inc fs b else matchLimitOrder inc fs b) =
   match_loop (ty = LIMIT) (side od) inc fs b"
  by (cases ty) (simp_all add: matchMarketOrder_def matchLimitOrder_def)

lemma processOrder_sim:
  assumes wf: "book_wf [] b" and avail: "free_list (pool b) \<noteq> None" and fresh: "id_map b i = None"
    and spec: "asubmit (make_Order i ts pr qty sd ty) (side_orders sd b) (side_orders (opposite sd) b) = (fills, own', opp')"
  shows "\<exists>b'. processOrder i ts pr qty sd ty b = Some (b', fills) \<and> book_wf [] b' \<and>
              side_orders sd b' = own' \<and> side_orders (opposite sd) b' = opp' \<and>
              dom (id_map b') \<subseteq> insert i (dom (id_map b))"
proof -
  define od where "od = make_Order i ts pr qty sd ty"
  obtain p1 inc where al: "allocate (pool b) = (p1, Some inc)"
    using avail allocate_None by (metis surj_pair not_None_eq)
  define b1 where "b1 = b\<lparr>pool := construct_order inc od p1\<rparr>"
  have c: "book_wf [inc] b1 \<and> get_order b1 inc = Some od \<and> side_orders sd' b1 = side_orders sd' b \<and>
      id_map b1 = id_map b" for sd'
    unfolding b1_def by (rule submit_construct [OF wf al])
  obtain q' where am: "amatch (gate_ok (ty = LIMIT) sd pr) i qty (side_orders (opposite sd) b1) = (fills, q', opp')"
    and own: "own' = (if ty = LIMIT \<and> 0 < q' then ains (side_cmp sd) (od\<lparr>quantity := q'\<rparr>) (side_orders sd b) else side_orders sd b)"
    using spec c by (auto simp: asubmit_def od_def split: prod.splits)
  obtain b2 where m: "match_loop (ty = LIMIT) sd inc [] b1 = Some (b2, fills)" and wf2: "book_wf [inc] b2"
    and g2: "get_order b2 inc = Some (od\<lparr>quantity := q'\<rparr>)" and opp2: "side_orders (opposite sd) b2 = opp'"
    and own2: "side_orders sd b2 = side_orders sd b" and im2: "id_map b2 \<subseteq>\<^sub>m id_map b1"
  proof -
    have am': "amatch (gate_ok (ty = LIMIT) sd (price od)) (order_id od) (quantity od) (side_orders (opposite sd) b1) =
        (fills, q', opp')" using am by (simp add: od_def)
    show ?thesis
      using match_loop_amatch_aux [OF refl conjunct1 [OF c] conjunct1 [OF conjunct2 [OF c]] am', where fs = "[]"]
        that c [of sd] by auto
  qed
  have p: "processOrder i ts pr qty sd ty b =
      (if otype (od\<lparr>quantity := q'\<rparr>) = LIMIT \<and> 0 < quantity (od\<lparr>quantity := q'\<rparr>) then do {
         b3 \<leftarrow> addToBook inc b2;
         io3 \<leftarrow> get_order b3 inc;
         Some (b3\<lparr>id_map := (id_map b3)(order_id io3 \<mapsto> inc), active_orders := active_orders b3 + 1\<rparr>, fills)
       }
       else Some (b2\<lparr>pool := deallocate (Some inc) (pool b2)\<rparr>, fills))"
  proof -
    have "(if ty = MARKET then matchMarketOrder inc [] b1 else matchLimitOrder inc [] b1) = Some (b2, fills)"
      using match_by_type [OF conjunct1 [OF conjunct2 [OF c]], of ty "[]"] m by (simp add: od_def)
    note mt = this
    show ?thesis
      unfolding processOrder_def al Let_def prod.case option.case od_def [symmetric] b1_def [symmetric] mt
      using g2 by simp
  qed
  have dm: "dom (id_map b2) \<subseteq> dom (id_map b)" using map_le_implies_dom_le [OF im2] c by simp
  show ?thesis
  proof (cases "ty = LIMIT \<and> 0 < q'")
    case True
    define io where "io = od\<lparr>quantity := q'\<rparr>"
    have sio: "side io = sd" "price io = pr" "order_id io = i" "otype io = LIMIT" "0 < quantity io"
      using True by (simp_all add: io_def od_def)
    have f2: "id_map b2 (order_id io) = None"
      using im2 fresh c sio(3) by (metis map_le_def domIff)
    have a: "addToBook inc b2 = Some (map_levels sd (lv_push_back (side_cmp sd) pr inc) b2)"
      using addToBook_push [OF g2] by (simp add: io_def [symmetric] sio)
    have "get_order (map_levels sd (lv_push_back (side_cmp sd) pr inc) b2) inc = Some io"
      using g2 by (simp add: io_def)
    then have p': "processOrder i ts pr qty sd ty b =
        Some ((map_levels sd (lv_push_back (side_cmp sd) pr inc) b2)
          \<lparr>id_map := (id_map b2)(i \<mapsto> inc), active_orders := active_orders b2 + 1\<rparr>, fills)"
      using p True a sio by (simp add: io_def [symmetric])
    have "book_wf [] ((map_levels sd (lv_push_back (side_cmp sd) pr inc) b2)
          \<lparr>id_map := (id_map b2)(i \<mapsto> inc), active_orders := active_orders b2 + 1\<rparr>)"
      using rest_wf [OF wf2 g2 [folded io_def] sio(4,5) f2] by (simp add: sio)
    moreover have "side_orders sd (map_levels sd (lv_push_back (side_cmp sd) pr inc) b2) = own' \<and>
        side_orders (opposite sd) (map_levels sd (lv_push_back (side_cmp sd) pr inc) b2) = opp'"
      using rest_orders [OF wf2 g2 [folded io_def]] own own2 opp2 True by (simp add: sio io_def od_def)
    moreover have "dom ((id_map b2)(i \<mapsto> inc)) \<subseteq> insert i (dom (id_map b))" using dm by auto
    ultimately show ?thesis using p' by (simp add: side_orders_def)
  next
    case False
    then have "processOrder i ts pr qty sd ty b = Some (b2\<lparr>pool := deallocate (Some inc) (pool b2)\<rparr>, fills)"
      using p by (auto simp: od_def)
    then show ?thesis using release_in_flight [OF wf2] False own own2 opp2 dm by auto
  qed
qed

lemma processOrder_exhausted:
  "free_list (pool b) = None \<Longrightarrow> processOrder i ts pr qty sd ty b = Some (b, [])"
proof -
  assume "free_list (pool b) = None"
  then have "allocate (pool b) = (pool b, None)" by (simp add: allocate_None)
  then show ?thesis by (simp add: processOrder_def)
qed

text \<open>
  Whatever the order, a submission with a fresh id on a well-formed book is defined, keeps
  the invariant, and adds at most its own id to the index.
\<close>

lemma processOrder_wf:
  assumes wf: "book_wf [] b" and fresh: "id_map b i = None"
  shows "\<exists>b' fs. processOrder i ts pr qty sd ty b = Some (b', fs) \<and> book_wf [] b' \<and>
                 dom (id_map b') \<subseteq> insert i (dom (id_map b))"
proof (cases "free_list (pool b) = None")
  case True
  then show ?thesis using processOrder_exhausted [OF True] wf by blast
next
  case False
  obtain fills own' opp' where
    "asubmit (make_Order i ts pr qty sd ty) (side_orders sd b) (side_orders (opposite sd) b) = (fills, own', opp')"
    by (metis prod_cases3)
  from processOrder_sim [OF wf False fresh this] show ?thesis by blast
qed

subsection \<open>Properties of submission\<close>

text \<open>
  C2: on a well-formed book, submitting an order with a fresh id is defined, keeps the
  invariant, and does what the abstract submission says: the fills of \<open>amatch\<close> against
  the opposite side, that side reduced to \<open>amatch\<close>'s rest, and the remainder of a limit
  order inserted into its own side in price-time priority.  When the pool has no free
  slot the order is rejected: no fills and the book unchanged.
\<close>

theorem processOrder_refines:
  assumes wf: "book_wf [] b" and fresh: "id_map b i = None"
    and spec: "asubmit (make_Order i ts pr qty sd ty) (side_orders sd b) (side_orders (opposite sd) b) = (fills, own', opp')"
  shows "\<exists>b'. processOrder i ts pr qty sd ty b = Some (b', if free_list (pool b) = None then [] else fills) \<and>
              book_wf [] b' \<and>
              side_orders sd b' = (if free_list (pool b) = None then side_orders sd b else own') \<and>
              side_orders (opposite sd) b' = (if free_list (pool b) = None then side_orders (opposite sd) b else opp')"
proof (cases "free_list (pool b) = None")
  case True
  then show ?thesis using processOrder_exhausted [OF True] wf by simp
next
  case False
  show ?thesis unfolding if_not_P [OF False] using processOrder_sim [OF wf False fresh spec] by blast
qed

theorem processOrder_refines_witness:
  "book_wf [] B3 \<and> id_map B3 1 = None \<and>
   asubmit (make_Order 1 1 100 10 BUY LIMIT) (side_orders BUY B3) (side_orders (opposite BUY) B3) =
     ([], [(make_Order 1 1 100 10 BUY LIMIT)\<lparr>quantity := 10\<rparr>], []) \<and>
   (\<exists>b'. processOrder 1 1 100 10 BUY LIMIT B3 = Some (b', if free_list (pool B3) = None then [] else []) \<and>
      book_wf [] b' \<and>
      side_orders BUY b' = (if free_list (pool B3) = None then side_orders BUY B3 else [(make_Order 1 1 100 10 BUY LIMIT)\<lparr>quantity := 10\<rparr>]) \<and>
      side_orders (opposite BUY) b' = (if free_list (pool B3) = None then side_orders (opposite BUY) B3 else []))"
proof -
  have f: "id_map B3 1 = None" by (simp add: B3_def)
  have a: "asubmit (make_Order 1 1 100 10 BUY LIMIT) (side_orders BUY B3) (side_orders (opposite BUY) B3) =
      ([], [(make_Order 1 1 (100::int) 10 BUY LIMIT)\<lparr>quantity := 10\<rparr>], [])"
    by (simp add: asubmit_def side_orders_def B3_def)
  show ?thesis using B3_wf f a processOrder_refines [OF B3_wf f a] by blast
qed

subsection \<open>The fills\<close>

text \<open>What \<open>amatch\<close> emits: quantities that add up with the remainder to the order's quantity.\<close>

lemma amatch_conserve:
  assumes "amatch ok iid q rs = (fs, q', rest)" and "\<forall>r \<in> set rs. 0 < quantity r"
  shows "unat q = sum_list (map (\<lambda>f. unat (fill_quantity f)) fs) + unat q' \<and>
         (\<forall>f \<in> set fs. 0 < fill_quantity f \<and> incoming_id f = iid \<and> ok (fill_price f))"
  using assms
proof (induction rs arbitrary: q fs q' rest)
  case Nil
  then show ?case by simp
next
  case (Cons r rs)
  show ?case
  proof (cases "q = 0 \<or> \<not> ok (price r)")
    case True
    then show ?thesis using Cons.prems(1) by auto
  next
    case stop: False
    show ?thesis
    proof (cases "quantity r \<le> q")
      case True
      obtain fs' where am: "amatch ok iid (q - quantity r) rs = (fs', q', rest)"
        and fs: "fs = \<lparr>resting_id = order_id r, incoming_id = iid, fill_quantity = quantity r, fill_price = price r\<rparr> # fs'"
        using Cons.prems(1) stop True by (auto split: prod.splits)
      have "unat (q - quantity r) = unat q - unat (quantity r)" using True by (simp add: unat_sub)
      moreover have "unat (quantity r) \<le> unat q" using True by (simp add: word_le_nat_alt)
      ultimately show ?thesis using Cons.IH [OF am] Cons.prems(2) fs stop by auto
    next
      case False
      then show ?thesis using Cons.prems(1) stop by (auto simp: word_gt_0)
    qed
  qed
qed

text \<open>
  C19: on a well-formed book, the fills of a submission with a fresh id have positive
  quantities that add up to at most the submitted quantity (no overfill), all name the
  incoming order, and for a limit order none trades at a price worse than its limit (a
  buy never above, a sell never below).
\<close>

theorem processOrder_fills:
  assumes wf: "book_wf [] b" and fresh: "id_map b i = None"
    and p: "processOrder i ts pr qty sd ty b = Some (b', fs)"
  shows "sum_list (map (\<lambda>f. unat (fill_quantity f)) fs) \<le> unat qty \<and>
         (\<forall>f \<in> set fs. 0 < fill_quantity f \<and> incoming_id f = i \<and>
            (ty = LIMIT \<longrightarrow> \<not> price_blocks sd pr (fill_price f)))"
proof (cases "free_list (pool b) = None")
  case True
  then show ?thesis using p processOrder_exhausted [OF True] by simp
next
  case False
  obtain fills own' opp' where spec:
    "asubmit (make_Order i ts pr qty sd ty) (side_orders sd b) (side_orders (opposite sd) b) = (fills, own', opp')"
    by (metis prod_cases3)
  obtain q' where am: "amatch (gate_ok (ty = LIMIT) sd pr) i qty (side_orders (opposite sd) b) = (fills, q', opp')"
    using spec by (auto simp: asubmit_def split: prod.splits)
  from processOrder_sim [OF wf False fresh spec] p have fs: "fs = fills" by auto
  have "\<forall>r \<in> set (side_orders (opposite sd) b). 0 < quantity r" using side_orders_fields [OF wf] by blast
  from amatch_conserve [OF am this] show ?thesis by (auto simp: fs gate_ok_def)
qed

theorem processOrder_fills_witness:
  "book_wf [] ex_rest \<and> id_map ex_rest 2 = None \<and>
   processOrder 2 2 100 30 BUY LIMIT ex_rest =
     Some (fst (the (processOrder 2 2 100 30 BUY LIMIT ex_rest)),
           [\<lparr>resting_id = 1, incoming_id = 2, fill_quantity = 30, fill_price = 100\<rparr>]) \<and>
   sum_list (map (\<lambda>f. unat (fill_quantity f)) [\<lparr>resting_id = 1, incoming_id = 2, fill_quantity = 30 :: u32, fill_price = 100 :: int\<rparr>]) \<le> unat (30 :: u32) \<and>
   \<not> price_blocks BUY 100 (100 :: int)"
proof -
  have f: "id_map ex_rest 2 = None" by (simp add: ex_rest_def ex_book_def)
  have c: "processOrder 2 2 100 30 BUY LIMIT ex_rest \<noteq> None \<and>
      snd (the (processOrder 2 2 100 30 BUY LIMIT ex_rest)) =
        [\<lparr>resting_id = 1, incoming_id = 2, fill_quantity = 30, fill_price = 100\<rparr>]"
    by code_simp
  then have p: "processOrder 2 2 100 30 BUY LIMIT ex_rest =
     Some (fst (the (processOrder 2 2 100 30 BUY LIMIT ex_rest)),
           [\<lparr>resting_id = 1, incoming_id = 2, fill_quantity = 30, fill_price = 100\<rparr>])"
    by (cases "processOrder 2 2 100 30 BUY LIMIT ex_rest") auto
  show ?thesis using ex_rest_wf f p processOrder_fills [OF ex_rest_wf f p] by simp
qed

subsection \<open>Ranges of the resting orders\<close>

text \<open>
  A submission never moves a price and never raises a quantity: the opposite side keeps
  its orders or reduces their quantities, and the remainder that rests is at most the
  submitted quantity at the submitted price.  So a range of prices and a bound on the
  quantities that every submitted limit order satisfies hold of the whole book.
\<close>

definition orders_within :: "'p::linorder \<Rightarrow> 'p \<Rightarrow> u32 \<Rightarrow> 'p Order list \<Rightarrow> bool" where
  "orders_within lo hi qmax os \<longleftrightarrow> list_all (\<lambda>r. lo \<le> price r \<and> price r \<le> hi \<and> quantity r \<le> qmax) os"

lemma amatch_within:
  assumes "amatch ok iid q rs = (fs, q', rest)" and "orders_within lo hi qmax rs"
  shows "q' \<le> q \<and> orders_within lo hi qmax rest"
  using assms
proof (induction rs arbitrary: q fs q' rest)
  case (Cons r rs)
  show ?case
  proof (cases "q = 0 \<or> \<not> ok (price r)")
    case True
    then show ?thesis using Cons.prems by auto
  next
    case stop: False
    show ?thesis
    proof (cases "quantity r \<le> q")
      case True
      obtain fs' where am: "amatch ok iid (q - quantity r) rs = (fs', q', rest)"
        using Cons.prems(1) stop True by (auto split: prod.splits)
      have "q - quantity r \<le> q" using True by (rule word_sub_le)
      then show ?thesis
        using Cons.IH [OF am] Cons.prems(2) by (auto simp: orders_within_def)
    next
      case False
      then have "quantity r - q \<le> quantity r" by (simp add: word_sub_le)
      then show ?thesis using Cons.prems stop False by (auto simp: orders_within_def)
    qed
  qed
qed simp

lemma ains_within:
  "orders_within lo hi qmax (od # xs) \<Longrightarrow> orders_within lo hi qmax (ains lt od xs)"
  by (auto simp: ains_takeWhile orders_within_def list_all_iff dest: set_takeWhileD set_dropWhileD)

lemma processOrder_within:
  assumes wf: "book_wf [] b" and fresh: "id_map b i = None"
    and bk: "\<And>sd'. orders_within lo hi qmax (side_orders sd' b)"
    and od: "ty = LIMIT \<Longrightarrow> lo \<le> pr \<and> pr \<le> hi \<and> qty \<le> qmax"
    and p: "processOrder i ts pr qty sd ty b = Some (b', fs)"
  shows "orders_within lo hi qmax (side_orders sd' b')"
proof (cases "free_list (pool b) = None")
  case True
  then show ?thesis using p processOrder_exhausted [OF True] bk by simp
next
  case False
  obtain fills own' opp' where spec:
    "asubmit (make_Order i ts pr qty sd ty) (side_orders sd b) (side_orders (opposite sd) b) = (fills, own', opp')"
    by (metis prod_cases3)
  obtain q' where am: "amatch (gate_ok (ty = LIMIT) sd pr) i qty (side_orders (opposite sd) b) = (fills, q', opp')"
    and own: "own' = (if ty = LIMIT \<and> 0 < q' then ains (side_cmp sd) ((make_Order i ts pr qty sd ty)\<lparr>quantity := q'\<rparr>) (side_orders sd b) else side_orders sd b)"
    using spec by (auto simp: asubmit_def split: prod.splits)
  from processOrder_sim [OF wf False fresh spec] p
  have so: "side_orders sd b' = own'" "side_orders (opposite sd) b' = opp'" by auto
  from amatch_within [OF am bk] have q: "q' \<le> qty" and "orders_within lo hi qmax opp'" by auto
  moreover have "orders_within lo hi qmax own'"
  proof (cases "ty = LIMIT \<and> 0 < q'")
    case True
    then have "orders_within lo hi qmax ((make_Order i ts pr qty sd ty)\<lparr>quantity := q'\<rparr> # side_orders sd b)"
      using od bk [of sd] q by (auto simp: orders_within_def)
    then show ?thesis using True own by (simp add: ains_within)
  next
    case False
    then show ?thesis using bk [of sd] by (simp only: own if_not_P [OF False] if_False)
  qed
  ultimately show ?thesis using so by (cases sd; cases sd') simp_all
qed

end
