(* ===== verification/Benchmark.thy ===== *)
theory Benchmark
  imports Complex_Main LOB_Prelude
begin

text \<open>
  The timer of \<open>src/src/Benchmark.h/.cpp\<close> and the double arithmetic that reports its
  reading.  \<open>class Benchmark\<close> holds two \<open>std::chrono::high_resolution_clock\<close> time
  points; \<open>start()\<close> and \<open>stop()\<close> store \<open>now()\<close> in \<open>begin_\<close> and \<open>end_\<close>, and
  \<open>elapsedMilliseconds()\<close> converts \<open>end_ - begin_\<close> to a \<open>double\<close> count of
  milliseconds.  The clock is outside the program, so its reading is an argument of
  \<open>start\<close> and \<open>stop\<close>: a time point is the signed count of clock ticks since the epoch,
  a tick being a nanosecond (the \<open>period\<close> of the clock in libstdc++ and libc++).  A
  default-constructed time point is the epoch.  Doubles are modelled by their real value
  (rounding is not modelled), extended by the three non-finite results that IEEE 754
  division by zero produces.
\<close>

type_synonym time_point = int

record Benchmark =
  bench_begin :: time_point
  bench_end :: time_point

text \<open>The implicit default constructor: both members are \<open>time_point()\<close>, the epoch.\<close>

definition Benchmark_ctor :: Benchmark where
  "Benchmark_ctor = \<lparr>bench_begin = 0, bench_end = 0\<rparr>"

definition start :: "time_point \<Rightarrow> Benchmark \<Rightarrow> Benchmark" where
  "start now t = t\<lparr>bench_begin := now\<rparr>"

definition stop :: "time_point \<Rightarrow> Benchmark \<Rightarrow> Benchmark" where
  "stop now t = t\<lparr>bench_end := now\<rparr>"

text \<open>\<open>duration<double, std::milli>(end_ - begin_).count()\<close>: nanoseconds over \<open>10^6\<close>.\<close>

definition elapsedMilliseconds :: "Benchmark \<Rightarrow> real" where
  "elapsedMilliseconds t = real_of_int (bench_end t - bench_begin t) / 1000000"

text \<open>
  A \<open>double\<close> result: a finite value or one of the non-finite values.  \<open>dbl_div x y\<close>
  is \<open>x / y\<close> on doubles for a divisor that is \<open>+0.0\<close> when it is zero (the only zero
  the program divides by: the conversion of the integer \<open>0\<close> and \<open>0.0 / 1000.0\<close> are
  both \<open>+0.0\<close>): \<open>0 / 0\<close> is NaN and a non-zero numerator gives the infinity of its sign.
\<close>

datatype dbl = Num real | PosInf | NegInf | NaN

definition dbl_div :: "real \<Rightarrow> real \<Rightarrow> dbl" where
  "dbl_div x y =
     (if y = 0 then (if x = 0 then NaN else if 0 < x then PosInf else NegInf) else Num (x / y))"

subsection \<open>Reading the timer\<close>

lemma elapsed_start_stop [simp]:
  "elapsedMilliseconds (stop t1 (start t0 tm)) = real_of_int (t1 - t0) / 1000000"
  by (simp add: elapsedMilliseconds_def start_def stop_def)

lemma dbl_div_ms:
  assumes "0 \<le> x"
  shows "dbl_div x (real_of_int d / 1000000 / 1000) =
           (if d = 0 then (if x = 0 then NaN else PosInf) else Num (x * 1000000000 / real_of_int d))"
  using assms by (auto simp: dbl_div_def)

end
