(* ===== verification/Simulator.thy ===== *)
theory Simulator
  imports Submission Benchmark
begin

text \<open>
  The driver of \<open>src/src/Simulator.h/.cpp\<close> and the body of \<open>src/src/main.cpp\<close>.
  \<open>class Simulator\<close> keeps two counters, \<open>next_order_id_\<close> and \<open>next_timestamp_\<close>
  (\<open>uint64_t\<close>, so \<open>++\<close> wraps), the engine \<open>rng_\<close> and four distributions; its
  reference \<open>book_\<close> is the book threaded through the run.  The model has two layers.
  \<open>sim_run\<close> is the loop over a given list of draws (price, size, side, type), submitting
  each with the next id and timestamp (\<open>sim_step\<close>; a market order gets the dummy price
  \<open>0\<close>) and dropping the fills; \<open>main_model\<close> builds the book and runs it.
  \<open>SimulatorObj\<close> adds the engine and the distributions behind the interface
  \<open>Random_lib\<close> of \<open><random>\<close>; \<open>sim_draw\<close> makes the four draws of one iteration,
  \<open>run_loop\<close> is the \<open>for\<close> loop with its \<open>u64\<close> counter, and \<open>Simulator_run\<close> is
  \<open>Simulator::run\<close> with the timer and the report it prints.  The lemma
  \<open>run_loop_draws\<close> carries invariants of \<open>sim_run\<close> to \<open>run_loop\<close> on the generator's
  draws (\<open>draws_of\<close>).
\<close>

record Simulator =
  next_order_id :: u64
  next_timestamp :: u64

text \<open>The constructor \<open>Simulator(ob, seed)\<close>: both counters start at 1.\<close>

definition Simulator_ctor :: "u64 \<Rightarrow> Simulator" where
  "Simulator_ctor seed = \<lparr>next_order_id = 1, next_timestamp = 1\<rparr>"

text \<open>One iteration's draws: \<open>price_dist_\<close>, \<open>size_dist_\<close>, \<open>side_dist_\<close>, \<open>type_dist_\<close>.\<close>

type_synonym 'p draw = "'p \<times> u32 \<times> side \<times> order_type"

text \<open>
  The body of one iteration after the draws: the price of a market order is the dummy
  \<open>0.0\<close>, \<open>next_timestamp_++\<close> and \<open>next_order_id_++\<close> post-increment in the
  order of the source, and the fills \<open>processOrder\<close> returns are dropped.
\<close>

definition sim_step ::
  "'p::{linorder, zero} draw \<Rightarrow> 's Simulator_scheme \<Rightarrow> 'p OrderBook \<Rightarrow> ('s Simulator_scheme \<times> 'p OrderBook) option"
where
  "sim_step d s b = (case d of (pr, qty, sd, ty) \<Rightarrow> do {
     let order_price = (if ty = LIMIT then pr else 0);
     let ts = next_timestamp s;
     let s1 = s\<lparr>next_timestamp := ts + 1\<rparr>;
     let oid = next_order_id s1;
     let s2 = s1\<lparr>next_order_id := oid + 1\<rparr>;
     (b', fills) \<leftarrow> processOrder oid ts order_price qty sd ty b;
     Some (s2, b')
   })"

text \<open>The loop of \<open>Simulator::run\<close> over a given list of draws.\<close>

fun sim_run ::
  "'p::{linorder, zero} draw list \<Rightarrow> 's Simulator_scheme \<Rightarrow> 'p OrderBook \<Rightarrow> ('s Simulator_scheme \<times> 'p OrderBook) option"
where
  "sim_run [] s b = Some (s, b)"
| "sim_run (d # ds) s b = do {
     (s', b') \<leftarrow> sim_step d s b;
     sim_run ds s' b'
   }"

text \<open>
  The body of \<open>main\<close> after the arguments, with \<open>mem\<close> bytes available: the book's
  \<open>std::bad_alloc\<close> ends the program uncaught; otherwise the run and the final count.
\<close>

definition main_model :: "nat \<Rightarrow> size_t \<Rightarrow> 'p::{linorder, zero} draw list \<Rightarrow> exn + size_t option" where
  "main_model mem pool_capacity draws =
     (case OrderBook_ctor mem pool_capacity of
        Inl e \<Rightarrow> Inl e
      | Inr book_opt \<Rightarrow> Inr (do {
          book \<leftarrow> book_opt;
          (sim, book') \<leftarrow> sim_run draws (Simulator_ctor 12345) book;
          Some (totalActiveOrders book')
        }))"

subsection \<open>The simulator object with its generator\<close>

text \<open>
  The rest of \<open>class Simulator\<close>: the engine \<open>rng_\<close> (\<open>std::mt19937_64\<close>) and the
  four distributions, each holding the parameters the constructor gives it.  The
  \<open><random>\<close> library is not part of the program; \<open>Random_lib\<close> is its interface as the
  program uses it, with the engine state \<open>'g\<close> threaded through every draw: seeding the
  engine, and one draw of \<open>uniform_real_distribution<double>(a, b)\<close>,
  \<open>uniform_int_distribution<uint32_t>(a, b)\<close> and \<open>bernoulli_distribution(p)\<close>.
  Prices are \<open>double\<close>, modelled by their real value.
\<close>

record 'g Random_lib =
  mt19937_64 :: "u64 \<Rightarrow> 'g"
  uniform_real :: "real \<Rightarrow> real \<Rightarrow> 'g \<Rightarrow> real \<times> 'g"
  uniform_int :: "u32 \<Rightarrow> u32 \<Rightarrow> 'g \<Rightarrow> u32 \<times> 'g"
  bernoulli :: "real \<Rightarrow> 'g \<Rightarrow> bool \<times> 'g"

text \<open>
  The contract of the two uniform distributions at the parameters the simulator uses
  (C++ [rand.dist.uni]): a draw lies in the range.  The closed range for the real
  distribution also admits the upper bound, which \<open>std::generate_canonical\<close> can
  round up to (LWG 2524).
\<close>

definition random_lib_ok :: "'g Random_lib \<Rightarrow> bool" where
  "random_lib_ok L \<longleftrightarrow>
     (\<forall>g. 100 \<le> fst (uniform_real L 100 200 g) \<and> fst (uniform_real L 100 200 g) \<le> 200) \<and>
     (\<forall>g. 1 \<le> fst (uniform_int L 1 1000 g) \<and> fst (uniform_int L 1 1000 g) \<le> 1000)"

record 'g SimulatorObj = Simulator +
  rng_engine :: 'g
  price_dist :: "real \<times> real"
  size_dist :: "u32 \<times> u32"
  side_dist :: real
  type_dist :: real

text \<open>The constructor \<open>Simulator(ob, seed)\<close> with its member initialisers.\<close>

definition SimulatorObj_ctor :: "'g Random_lib \<Rightarrow> u64 \<Rightarrow> 'g SimulatorObj" where
  "SimulatorObj_ctor L seed =
     \<lparr>next_order_id = 1, next_timestamp = 1, rng_engine = mt19937_64 L seed,
      price_dist = (100, 200), size_dist = (1, 1000), side_dist = 1 / 2, type_dist = 1 / 10\<rparr>"

text \<open>The four draws of one iteration, in the order of the four statements.\<close>

definition sim_draw :: "'g Random_lib \<Rightarrow> 'g SimulatorObj \<Rightarrow> real draw \<times> 'g SimulatorObj" where
  "sim_draw L s =
     (let (price, g1) = uniform_real L (fst (price_dist s)) (snd (price_dist s)) (rng_engine s);
          (qty, g2) = uniform_int L (fst (size_dist s)) (snd (size_dist s)) g1;
          (sb, g3) = bernoulli L (side_dist s) g2;
          (tb, g4) = bernoulli L (type_dist s) g3
      in ((price, qty, if sb then BUY else SELL, if tb then MARKET else LIMIT), s\<lparr>rng_engine := g4\<rparr>))"

text \<open>
  The loop \<open>for (uint64_t i = 0; i < total_orders; ++i)\<close>: the counter is a \<open>u64\<close>; it
  stays below \<open>total_orders\<close> in the body, so \<open>++i\<close> never wraps and the distance
  \<open>total_orders - i\<close> decreases.
\<close>

function run_loop ::
  "'g Random_lib \<Rightarrow> u64 \<Rightarrow> u64 \<Rightarrow> 'g SimulatorObj \<Rightarrow> real OrderBook \<Rightarrow> ('g SimulatorObj \<times> real OrderBook) option"
where
  "run_loop L total_orders i s b =
     (if i < total_orders then
        (let (d, s0) = sim_draw L s in do {
           (s', b') \<leftarrow> sim_step d s0 b;
           run_loop L total_orders (i + 1) s' b'
         })
      else Some (s, b))"
  by pat_completeness auto
termination
proof (relation "measure (\<lambda>(L, t, i, s, b). unat t - unat i)")
  fix L t i s b d s0 x s' b'
  assume "i < (t :: u64)"
  then have lt: "unat i < unat t" by (simp add: word_less_nat_alt)
  moreover have "unat t < 2 ^ 64" using unsigned_less [of t] by simp
  ultimately have "unat (i + 1) = unat i + 1" by (simp add: unat_add_lem [THEN iffD1])
  with lt show "((L, t, i + 1, s', b'), L, t, i, s, b) \<in> measure (\<lambda>(L, t, i, s, b). unat t - unat i)"
    by simp
qed simp

declare run_loop.simps [simp del]

text \<open>
  What \<open>Simulator::run\<close> prints: the order count, the elapsed milliseconds and the
  throughput \<open>(double)total_orders / (elapsed_ms / 1000.0)\<close>.
\<close>

record run_report =
  rep_orders :: u64
  rep_elapsed :: real
  rep_throughput :: dbl

text \<open>
  \<open>Simulator::run\<close>: start the timer at the clock reading \<open>fst clk\<close>, run the loop, stop
  it at \<open>snd clk\<close>, and report.  \<open>(double)total_orders\<close> is the real value of the count.
\<close>

definition Simulator_run ::
  "'g Random_lib \<Rightarrow> time_point \<times> time_point \<Rightarrow> u64 \<Rightarrow> 'g SimulatorObj \<Rightarrow> real OrderBook \<Rightarrow>
   ('g SimulatorObj \<times> real OrderBook \<times> run_report) option"
where
  "Simulator_run L clk total_orders s b = do {
     let timer = start (fst clk) Benchmark_ctor;
     (s', b') \<leftarrow> run_loop L total_orders 0 s b;
     let timer = stop (snd clk) timer;
     let elapsed_ms = elapsedMilliseconds timer;
     let throughput = dbl_div (real (unat total_orders)) (elapsed_ms / 1000);
     Some (s', b', \<lparr>rep_orders = total_orders, rep_elapsed = elapsed_ms, rep_throughput = throughput\<rparr>)
   }"

text \<open>
  The draws the loop makes: the first \<open>n\<close> results of \<open>sim_draw\<close>, each from the
  generator state the previous one left.  This is the list that \<open>sim_run\<close> takes as input.
\<close>

fun draws_of :: "'g Random_lib \<Rightarrow> nat \<Rightarrow> 'g SimulatorObj \<Rightarrow> real draw list" where
  "draws_of L 0 s = []"
| "draws_of L (Suc n) s = (let (d, s') = sim_draw L s in d # draws_of L n s')"

text \<open>A generator satisfying the contract, for the examples: it alternates between the bounds.\<close>

definition ex_lib :: "nat Random_lib" where
  "ex_lib = \<lparr>mt19937_64 = unat, uniform_real = (\<lambda>a b g. (if even g then a else b, Suc g)),
             uniform_int = (\<lambda>a b g. (if even g then a else b, Suc g)),
             bernoulli = (\<lambda>p g. (odd g, Suc g))\<rparr>"

definition ex_empty_book :: "real OrderBook" where
  "ex_empty_book = \<lparr>pool = \<lparr>heap = Map.empty, next_free = Map.empty, free_list = None, capacity = 0\<rparr>,
                    bids = [], asks = [], id_map = Map.empty, max_orders = 0, active_orders = 0\<rparr>"

subsection \<open>The run keeps the book well-formed\<close>

text \<open>
  The simulator issues ids in increasing order, so as long as the id counter does not wrap
  every id it submits is fresh: all ids in the index are below the counter.
\<close>

lemma sim_run_inv:
  assumes "book_wf [] b" and "\<forall>i \<in> dom (id_map b). unat i < unat (next_order_id s)"
    and "unat (next_order_id s) + length ds < 2 ^ 64" and "I b"
    and step: "\<And>b b' i ts pr qty sd ty fs. book_wf [] b \<Longrightarrow> id_map b i = None \<Longrightarrow> I b \<Longrightarrow>
                 (pr, qty, sd, ty) \<in> set ds \<Longrightarrow>
                 processOrder i ts (if ty = LIMIT then pr else 0) qty sd ty b = Some (b', fs) \<Longrightarrow> I b'"
  shows "\<exists>s' b'. sim_run ds s b = Some (s', b') \<and> book_wf [] b' \<and> I b' \<and>
                unat (next_order_id s') = unat (next_order_id s) + length ds"
  using assms
proof (induction ds arbitrary: s b)
  case Nil
  then show ?case by simp
next
  case (Cons d ds)
  obtain pr qty sd ty where d: "d = (pr, qty, sd, ty)" by (cases d) auto
  let ?oid = "next_order_id s"
  let ?s2 = "s\<lparr>next_timestamp := next_timestamp s + 1, next_order_id := ?oid + 1\<rparr>"
  have fresh: "id_map b ?oid = None" using Cons.prems(2) by blast
  obtain b'' fs where p: "processOrder ?oid (next_timestamp s) (if ty = LIMIT then pr else 0) qty sd ty b = Some (b'', fs)"
    and wf'': "book_wf [] b''" and dm: "dom (id_map b'') \<subseteq> insert ?oid (dom (id_map b))"
    using processOrder_wf [OF Cons.prems(1) fresh] by blast
  have I'': "I b''" using Cons.prems(5) [OF Cons.prems(1) fresh Cons.prems(4) _ p] d by simp
  have inc: "unat (?oid + 1) = unat ?oid + 1"
    using Cons.prems(3) by (simp add: unat_add_lem [THEN iffD1])
  have ids: "\<forall>i \<in> dom (id_map b''). unat i < unat (next_order_id ?s2)"
  proof
    fix i assume "i \<in> dom (id_map b'')"
    then have "i = ?oid \<or> i \<in> dom (id_map b)" using dm by blast
    then show "unat i < unat (next_order_id ?s2)"
    proof
      assume "i \<in> dom (id_map b)"
      then have "unat i < unat ?oid" using Cons.prems(2) by blast
      then show ?thesis using inc by simp
    qed (simp add: inc)
  qed
  have bnd: "unat (next_order_id ?s2) + length ds < 2 ^ 64" using Cons.prems(3) inc by simp
  obtain s' b' where r: "sim_run ds ?s2 b'' = Some (s', b')" and "book_wf [] b'" and "I b'"
    and "unat (next_order_id s') = unat (next_order_id ?s2) + length ds"
    using Cons.IH [OF wf'' ids bnd I''] Cons.prems(5) by (metis list.set_intros(2))
  moreover have "sim_run (d # ds) s b = sim_run ds ?s2 b''" using p by (simp add: d sim_step_def)
  ultimately show ?case using inc by simp
qed

subsection \<open>The loop over the generator\<close>

text \<open>
  A draw reads only the generator and the distributions, and a step of the loop changes
  only the two counters; so the loop over the generator is the loop over the list of its
  draws, up to the generator state.
\<close>

abbreviation sim_view :: "'s Simulator_scheme \<times> 'p OrderBook \<Rightarrow> u64 \<times> u64 \<times> 'p OrderBook" where
  "sim_view r \<equiv> (next_order_id (fst r), next_timestamp (fst r), snd r)"

lemma sim_draw_fields [simp]:
  "next_order_id (snd (sim_draw L s)) = next_order_id s"
  "next_timestamp (snd (sim_draw L s)) = next_timestamp s"
  "price_dist (snd (sim_draw L s)) = price_dist s"
  "size_dist (snd (sim_draw L s)) = size_dist s"
  by (simp_all add: sim_draw_def split: prod.split)

lemma sim_draw_counters:
  "sim_draw L (s\<lparr>next_timestamp := x, next_order_id := y\<rparr>) =
     (fst (sim_draw L s), (snd (sim_draw L s))\<lparr>next_timestamp := x, next_order_id := y\<rparr>)"
  by (simp add: sim_draw_def split: prod.split)

lemma draws_of_counters:
  "draws_of L n (s\<lparr>next_timestamp := x, next_order_id := y\<rparr>) = draws_of L n s"
proof (induction n arbitrary: s)
  case (Suc n)
  then show ?case by (simp add: sim_draw_counters split: prod.split)
qed simp

lemma length_draws_of [simp]: "length (draws_of L n s) = n"
  by (induction n arbitrary: s) (simp_all split: prod.split)

lemma sim_step_eq:
  "sim_step (pr, qty, sd, ty) s b =
     map_option (\<lambda>r. (s\<lparr>next_timestamp := next_timestamp s + 1, next_order_id := next_order_id s + 1\<rparr>, fst r))
       (processOrder (next_order_id s) (next_timestamp s) (if ty = LIMIT then pr else 0) qty sd ty b)"
  by (simp add: sim_step_def Let_def split: option.split prod.split)

lemma sim_run_view:
  assumes "next_order_id s = next_order_id s2" and "next_timestamp s = next_timestamp s2"
  shows "map_option sim_view (sim_run ds s b) = map_option sim_view (sim_run ds s2 b)"
  using assms
proof (induction ds arbitrary: s s2 b)
  case (Cons d ds)
  obtain pr qty sd ty where d: "d = (pr, qty, sd, ty)" by (cases d) auto
  let ?po = "processOrder (next_order_id s) (next_timestamp s) (if ty = LIMIT then pr else 0) qty sd ty b"
  show ?case
  proof (cases ?po)
    case None
    then show ?thesis using Cons.prems by (simp add: d sim_step_eq)
  next
    case (Some r)
    have "map_option sim_view (sim_run ds (s\<lparr>next_timestamp := next_timestamp s + 1, next_order_id := next_order_id s + 1\<rparr>) (fst r)) =
          map_option sim_view (sim_run ds (s2\<lparr>next_timestamp := next_timestamp s2 + 1, next_order_id := next_order_id s2 + 1\<rparr>) (fst r))"
      using Cons.prems by (intro Cons.IH) simp_all
    then show ?thesis using Some Cons.prems by (simp add: d sim_step_eq split: prod.split)
  qed
qed simp

lemma run_loop_draws:
  assumes "i \<le> t"
  shows "map_option sim_view (run_loop L t i s b) =
         map_option sim_view (sim_run (draws_of L (unat t - unat i) s) s b)"
  using assms
proof (induction "unat t - unat i" arbitrary: i s b)
  case 0
  then have "\<not> i < t" by (simp add: word_less_nat_alt)
  then show ?case using 0 by (simp add: run_loop.simps)
next
  case (Suc n)
  then have lt: "i < t" by (simp add: word_less_nat_alt)
  have "unat t < 2 ^ 64" using unsigned_less [of t] by simp
  then have inc: "unat (i + 1) = unat i + 1"
    using lt by (simp add: unat_add_lem [THEN iffD1] word_less_nat_alt)
  have le: "i + 1 \<le> t" using lt inc by (simp add: word_le_nat_alt word_less_nat_alt)
  have n: "n = unat t - unat (i + 1)" using Suc.hyps(2) inc by simp
  obtain d s0 where dr: "sim_draw L s = (d, s0)" by fastforce
  obtain pr qty sd ty where d: "d = (pr, qty, sd, ty)" by (cases d) auto
  have s0: "next_order_id s0 = next_order_id s" "next_timestamp s0 = next_timestamp s"
    using sim_draw_fields(1,2) [of L s] dr by simp_all
  have ds: "draws_of L (unat t - unat i) s = d # draws_of L n s0"
    using Suc.hyps(2) dr by (simp flip: Suc.hyps(2))
  let ?po = "processOrder (next_order_id s) (next_timestamp s) (if ty = LIMIT then pr else 0) qty sd ty b"
  show ?case
  proof (cases ?po)
    case None
    then show ?thesis using lt dr ds s0 by (simp add: run_loop.simps [of L t i] d sim_step_eq)
  next
    case (Some r)
    obtain b' fs where r: "r = (b', fs)" by fastforce
    let ?s1 = "s0\<lparr>next_timestamp := next_timestamp s + 1, next_order_id := next_order_id s + 1\<rparr>"
    let ?s2 = "s\<lparr>next_timestamp := next_timestamp s + 1, next_order_id := next_order_id s + 1\<rparr>"
    have "map_option sim_view (run_loop L t (i + 1) ?s1 b') =
          map_option sim_view (sim_run (draws_of L n ?s1) ?s1 b')"
      using Suc.hyps(1) [OF n le] n by simp
    also have "\<dots> = map_option sim_view (sim_run (draws_of L n s0) ?s2 b')"
      by (simp add: draws_of_counters) (rule sim_run_view; simp)
    finally show ?thesis using lt dr ds s0 Some r
      by (simp add: run_loop.simps [of L t i] d sim_step_eq)
  qed
qed

lemma sim_draw_range:
  assumes "random_lib_ok L" and "price_dist s = (100, 200)" and "size_dist s = (1, 1000)"
    and "fst (sim_draw L s) = (pr, qty, sd, ty)"
  shows "100 \<le> pr \<and> pr \<le> 200 \<and> 1 \<le> qty \<and> qty \<le> 1000"
proof -
  let ?u = "uniform_real L 100 200 (rng_engine s)"
  let ?v = "uniform_int L 1 1000 (snd ?u)"
  have "pr = fst ?u \<and> qty = fst ?v"
    using assms(2-4) by (simp add: sim_draw_def split: prod.splits)
  moreover have "100 \<le> fst ?u \<and> fst ?u \<le> 200 \<and> 1 \<le> fst ?v \<and> fst ?v \<le> 1000"
    using assms(1) unfolding random_lib_ok_def by blast
  ultimately show ?thesis by simp
qed

lemma draws_of_range:
  assumes "random_lib_ok L" and "price_dist s = (100, 200)" and "size_dist s = (1, 1000)"
    and "(pr, qty, sd, ty) \<in> set (draws_of L n s)"
  shows "100 \<le> pr \<and> pr \<le> 200 \<and> 1 \<le> qty \<and> qty \<le> 1000"
  using assms(2-4)
proof (induction n arbitrary: s)
  case (Suc n)
  obtain d s' where dr: "sim_draw L s = (d, s')" by fastforce
  have "price_dist s' = (100, 200)" "size_dist s' = (1, 1000)"
    using sim_draw_fields(3,4) [of L s] dr Suc.prems by simp_all
  then show ?case
    using Suc.prems Suc.IH sim_draw_range [OF assms(1) Suc.prems(1,2)] dr by auto
qed simp

text \<open>
  C20: when the generator meets the contract of its distributions, the system provides the
  pool's block and fewer than \<open>2^64 - 1\<close> orders are requested, \<open>Simulator::run\<close> on
  the freshly built book returns, and every order resting in the final book has a price
  between 100 and 200 and a quantity between 1 and 1000: the dummy price \<open>0\<close> of market
  orders never reaches the book, and matching never raises a quantity.
\<close>

theorem Simulator_run_in_range:
  assumes lib: "random_lib_ok L" and cap: "operator_new mem (unat cap * sizeof_Order)"
    and tot: "unat t < 2 ^ 64 - 1"
  shows "\<exists>b s' b' rep. OrderBook_ctor mem cap = Inr (Some b) \<and>
           Simulator_run L clk t (SimulatorObj_ctor L seed) b = Some (s', b', rep) \<and>
           (\<forall>sd. \<forall>r \<in> set (side_orders sd b').
              100 \<le> price r \<and> price r \<le> 200 \<and> 0 < quantity r \<and> quantity r \<le> 1000)"
proof -
  let ?s0 = "SimulatorObj_ctor L seed"
  let ?ds = "draws_of L (unat t) ?s0"
  let ?I = "\<lambda>b :: real OrderBook. \<forall>sd. orders_within 100 200 1000 (side_orders sd b)"
  obtain b :: "real OrderBook" where ctor: "OrderBook_ctor mem cap = Inr (Some b)"
    using OrderBook_ctor_fits [OF cap] by blast
  have wf: "book_wf [] b" and im: "id_map b = Map.empty" using OrderBook_ctor_book_wf [OF ctor] by blast+
  have I0: "?I b"
  proof
    fix sd
    have "bids b = [] \<and> asks b = []" by (rule OrderBook_ctor_Some [OF ctor]) simp
    then have "levels_of sd b = []" by (cases sd) simp_all
    then show "orders_within 100 200 1000 (side_orders sd b)"
      by (simp add: side_orders_def orders_within_def)
  qed
  have bnd: "unat (next_order_id ?s0) + length ?ds < 2 ^ 64" using tot by (simp add: SimulatorObj_ctor_def)
  have ids: "\<forall>i \<in> dom (id_map b). unat i < unat (next_order_id ?s0)" by (simp add: im)
  have step: "?I b2"
    if "book_wf [] b1" "id_map b1 i = None" "?I b1" "(pr, qty, sd, ty) \<in> set ?ds"
      "processOrder i ts (if ty = LIMIT then pr else 0) qty sd ty b1 = Some (b2, fs)"
    for b1 b2 i ts pr qty sd ty fs
  proof
    fix sd'
    have "100 \<le> pr \<and> pr \<le> 200 \<and> 1 \<le> qty \<and> qty \<le> 1000"
      using draws_of_range [OF lib _ _ that(4)] by (simp add: SimulatorObj_ctor_def)
    then have od: "ty = LIMIT \<Longrightarrow> 100 \<le> (if ty = LIMIT then pr else 0) \<and>
        (if ty = LIMIT then pr else 0) \<le> 200 \<and> qty \<le> 1000" by simp
    have bk: "\<And>sd''. orders_within 100 200 1000 (side_orders sd'' b1)" using that(3) by blast
    show "orders_within 100 200 1000 (side_orders sd' b2)"
      by (rule processOrder_within [OF that(1,2) bk od that(5)])
  qed
  have "\<exists>s1 b'. sim_run ?ds ?s0 b = Some (s1, b') \<and> book_wf [] b' \<and> ?I b' \<and>
      unat (next_order_id s1) = unat (next_order_id ?s0) + length ?ds"
    by (rule sim_run_inv [where I = ?I, OF wf ids bnd I0]) (rule step)
  then obtain s1 b' where sr: "sim_run ?ds ?s0 b = Some (s1, b')" and wf': "book_wf [] b'" and I': "?I b'"
    by blast
  have "map_option sim_view (run_loop L t 0 ?s0 b) = Some (sim_view (s1, b'))"
    using run_loop_draws [of 0 t L ?s0 b] sr by simp
  then obtain s' where rl: "run_loop L t 0 ?s0 b = Some (s', b')" by auto
  have "100 \<le> price r \<and> price r \<le> 200 \<and> 0 < quantity r \<and> quantity r \<le> 1000"
    if r: "r \<in> set (side_orders sd b')" for sd r
  proof -
    have "list_all (\<lambda>r. 100 \<le> price r \<and> price r \<le> 200 \<and> quantity r \<le> 1000) (side_orders sd b')"
      using I' by (simp add: orders_within_def)
    then show ?thesis using r side_orders_fields [OF wf' r] by (simp add: list_all_iff)
  qed
  then show ?thesis using ctor rl by (simp add: Simulator_run_def)
qed

theorem Simulator_run_in_range_witness:
  "random_lib_ok ex_lib \<and> operator_new PTRDIFF_MAX (unat (3 :: size_t) * sizeof_Order) \<and>
   unat (2 :: u64) < 2 ^ 64 - 1 \<and>
   (\<exists>b s' b' rep. OrderBook_ctor PTRDIFF_MAX 3 = Inr (Some b) \<and>
      Simulator_run ex_lib (0, 1000000) 2 (SimulatorObj_ctor ex_lib 12345) b = Some (s', b', rep))"
proof -
  have l: "random_lib_ok ex_lib" by (simp add: random_lib_ok_def ex_lib_def)
  have c: "operator_new PTRDIFF_MAX (unat (3 :: size_t) * sizeof_Order)"
    by (simp add: operator_new_def PTRDIFF_MAX_def sizeof_Order_def)
  have t: "unat (2 :: u64) < 2 ^ 64 - 1" by simp
  show ?thesis
    using l c t Simulator_run_in_range [OF l c t, of "(0, 1000000)" 12345] by blast
qed

text \<open>
  C21: what \<open>Simulator::run\<close> prints: the order count, the elapsed milliseconds of the
  two clock readings, and the throughput \<open>total_orders * 10^9 / (t1 - t0)\<close> orders per
  second.  The code does not guard the division: when both readings are equal the
  throughput is infinite, and NaN when no order was requested.
\<close>

theorem Simulator_run_report:
  assumes "Simulator_run L (t0, t1) n s b = Some (s', b', rep)"
  shows "rep_orders rep = n \<and> rep_elapsed rep = real_of_int (t1 - t0) / 1000000 \<and>
         rep_throughput rep =
           (if t1 = t0 then (if n = 0 then NaN else PosInf)
            else Num (real (unat n) * 1000000000 / real_of_int (t1 - t0)))"
proof -
  obtain r where rl: "run_loop L n 0 s b = Some r"
    using assms by (cases "run_loop L n 0 s b") (simp_all add: Simulator_run_def)
  have rep: "rep = \<lparr>rep_orders = n, rep_elapsed = real_of_int (t1 - t0) / 1000000,
      rep_throughput = dbl_div (real (unat n)) (real_of_int (t1 - t0) / 1000000 / 1000)\<rparr>"
    using assms rl by (cases r) (simp add: Simulator_run_def Benchmark_ctor_def)
  have x0: "0 \<le> real (unat n)" by (rule of_nat_0_le_iff)
  have x1: "(real (unat n) = 0) = (n = 0)" by (metis of_nat_eq_0_iff unat_eq_zero)
  have "dbl_div (real (unat n)) (real_of_int (t1 - t0) / 1000000 / 1000) =
        (if t1 = t0 then (if n = 0 then NaN else PosInf)
         else Num (real (unat n) * 1000000000 / real_of_int (t1 - t0)))"
    using dbl_div_ms [OF x0, of "t1 - t0"] by (simp only: x1 right_minus_eq)
  then show ?thesis using rep by simp
qed

theorem Simulator_run_report_witness:
  "Simulator_run ex_lib (5, 5) 0 (SimulatorObj_ctor ex_lib 12345) ex_empty_book =
     Some (SimulatorObj_ctor ex_lib 12345, ex_empty_book, \<lparr>rep_orders = 0, rep_elapsed = 0, rep_throughput = NaN\<rparr>) \<and>
   rep_throughput \<lparr>rep_orders = 0, rep_elapsed = 0, rep_throughput = NaN\<rparr> = NaN"
proof -
  have r: "Simulator_run ex_lib (5, 5) 0 (SimulatorObj_ctor ex_lib 12345) ex_empty_book =
     Some (SimulatorObj_ctor ex_lib 12345, ex_empty_book, \<lparr>rep_orders = 0, rep_elapsed = 0, rep_throughput = NaN\<rparr>)"
    by (simp add: Simulator_run_def run_loop.simps [of _ 0 0] Benchmark_ctor_def dbl_div_def)
  show ?thesis using Simulator_run_report [OF r] r by simp
qed

end
