(* ===== verification/Entry_Point.thy ===== *)
theory Entry_Point
  imports Simulator
begin

text \<open>
  The command line of \<open>src/src/main.cpp\<close>: \<open>argv[1]\<close> (total orders, default
  1,000,000) and \<open>argv[2]\<close> (pool capacity, default 2,000,000) are read with
  \<open>std::stoull\<close>.  \<open>std::stoull\<close>
  is a library function; it is modelled after the C library's \<open>strtoull\<close> in base 10,
  which it calls: leading white space is skipped, an optional sign is read, then the
  longest run of decimal digits; no digit raises \<open>std::invalid_argument\<close>, a value
  above \<open>ULLONG_MAX\<close> raises \<open>std::out_of_range\<close>, and a minus sign negates the value
  modulo \<open>2^64\<close>.  The exception is the \<open>Inl\<close> of the result; \<open>main\<close> does not catch
  it, nor the \<open>std::bad_alloc\<close> of the book's constructor.
\<close>

definition is_space :: "char \<Rightarrow> bool" where
  "is_space c \<longleftrightarrow> (of_char c :: nat) \<in> {9, 10, 11, 12, 13, 32}"

definition is_digit :: "char \<Rightarrow> bool" where
  "is_digit c \<longleftrightarrow> 48 \<le> (of_char c :: nat) \<and> (of_char c :: nat) \<le> 57"

definition digit_val :: "char \<Rightarrow> nat" where
  "digit_val c = of_char c - 48"

definition stoull :: "string \<Rightarrow> exn + u64" where
  "stoull s =
     (let s1 = dropWhile is_space s;
          (neg, s2) = (case s1 of
                         [] \<Rightarrow> (False, [])
                       | c # r \<Rightarrow> if c = CHR ''-'' then (True, r)
                                  else if c = CHR ''+'' then (False, r) else (False, s1));
          ds = takeWhile is_digit s2;
          n = foldl (\<lambda>acc c. 10 * acc + digit_val c) 0 ds
      in if ds = [] then Inl invalid_argument
         else if 2 ^ 64 \<le> n then Inl out_of_range
         else Inr (if neg then - word_of_nat n else word_of_nat n))"

text \<open>The argument handling of \<open>main\<close>: \<open>argv\<close> includes the program name, so \<open>argc\<close> is its length.\<close>

definition main_args :: "string list \<Rightarrow> exn + u64 \<times> size_t" where
  "main_args argv =
     (case (if 2 \<le> length argv then stoull (argv ! 1) else Inr 1000000) of
        Inl e \<Rightarrow> Inl e
      | Inr total_orders \<Rightarrow>
          (case (if 3 \<le> length argv then stoull (argv ! 2) else Inr 2000000) of
             Inl e \<Rightarrow> Inl e
           | Inr pool_capacity \<Rightarrow> Inr (total_orders, pool_capacity)))"

text \<open>
  The whole program on a system providing \<open>mem\<close> bytes: parse the arguments, build the
  book, run the simulator for \<open>total_orders\<close> draws of the generator (the function
  \<open>rng\<close> gives the \<open>k\<close>-th draw) and return the final count; \<open>Inl\<close> is an uncaught
  exception, \<open>None\<close> undefined behaviour.
\<close>

definition main_prog ::
  "nat \<Rightarrow> string list \<Rightarrow> (nat \<Rightarrow> 'p::{linorder, zero} draw) \<Rightarrow> exn + size_t option"
where
  "main_prog mem argv rng =
     (case main_args argv of
        Inl e \<Rightarrow> Inl e
      | Inr (total_orders, pool_capacity) \<Rightarrow>
          main_model mem pool_capacity (map rng [0..<unat total_orders]))"

subsection \<open>Properties of the command line\<close>

text \<open>
  A negative capacity is not rejected: \<open>std::stoull("-1")\<close> is \<open>2^64 - 1\<close>, whose block
  size wraps to \<open>2^64 - 48\<close> bytes, above \<open>PTRDIFF_MAX\<close>, so the constructor throws
  \<open>std::bad_alloc\<close>, which ends the program, on every system.
\<close>

lemma main_negative_capacity: "main_prog mem [p, ''10'', ''-1''] rng = Inl bad_alloc"
proof -
  have a: "main_args [p, ''10'', ''-1''] = Inr (10, - 1)"
    by (simp add: main_args_def stoull_def is_space_def is_digit_def digit_val_def)
  have "\<not> operator_new mem (unat ((- 1 :: size_t) * of_nat sizeof_Order))"
    by (simp add: operator_new_def PTRDIFF_MAX_def sizeof_Order_def)
  then have "OrderBook_ctor mem (- 1 :: size_t) = (Inl bad_alloc :: exn + 'a OrderBook option)"
    by (simp add: OrderBook_ctor_def MemoryPool_ctor_def)
  then show ?thesis by (simp add: main_prog_def a main_model_def)
qed

text \<open>
  C16: a malformed argument is not handled: the first argument that \<open>std::stoull\<close> rejects
  (no digits, or a value above \<open>ULLONG_MAX\<close>) ends the program with that exception
  (spec section 7).
\<close>

theorem main_prog_parse_error:
  "(2 \<le> length argv \<and> stoull (argv ! 1) = Inl e \<longrightarrow> main_prog mem argv rng = Inl e) \<and>
   (3 \<le> length argv \<and> stoull (argv ! 1) = Inr t \<and> stoull (argv ! 2) = Inl e \<longrightarrow> main_prog mem argv rng = Inl e)"
  by (auto simp: main_prog_def main_args_def)

theorem main_prog_parse_error_witness:
  "2 \<le> length [''lob'', ''abc''] \<and> stoull ([''lob'', ''abc''] ! 1) = Inl invalid_argument \<and>
   main_prog PTRDIFF_MAX [''lob'', ''abc''] (\<lambda>_. (150 :: int, 10 :: u32, BUY, LIMIT)) = Inl invalid_argument \<and>
   3 \<le> length [''lob'', ''10'', ''18446744073709551616''] \<and>
   stoull ([''lob'', ''10'', ''18446744073709551616''] ! 1) = Inr 10 \<and>
   stoull ([''lob'', ''10'', ''18446744073709551616''] ! 2) = Inl out_of_range \<and>
   main_prog PTRDIFF_MAX [''lob'', ''10'', ''18446744073709551616''] (\<lambda>_. (150 :: int, 10 :: u32, BUY, LIMIT)) = Inl out_of_range"
proof -
  have a: "stoull ([''lob'', ''abc''] ! 1) = Inl invalid_argument"
    by (simp add: stoull_def is_space_def is_digit_def)
  have b: "stoull ([''lob'', ''10'', ''18446744073709551616''] ! 1) = Inr 10"
    by (simp add: stoull_def is_space_def is_digit_def digit_val_def)
  have c: "stoull ([''lob'', ''10'', ''18446744073709551616''] ! 2) = Inl out_of_range"
    by (simp add: stoull_def is_space_def is_digit_def digit_val_def)
  show ?thesis using a b c
    main_prog_parse_error [of "[''lob'', ''abc'']" invalid_argument PTRDIFF_MAX "(\<lambda>_. (150 :: int, 10 :: u32, BUY, LIMIT))"]
    main_prog_parse_error [of "[''lob'', ''10'', ''18446744073709551616'']" out_of_range PTRDIFF_MAX
      "(\<lambda>_. (150 :: int, 10 :: u32, BUY, LIMIT))" 10] by simp
qed

text \<open>
  C17: a capacity whose block size wraps around in \<open>size_t\<close> to a size the system can
  provide is accepted, and the program has undefined behaviour: the constructor threads
  \<open>capacity\<close> slots through a block too small for them (for \<open>2^60\<close> the block is empty).
\<close>

theorem main_wrapping_capacity:
  fixes rng :: "nat \<Rightarrow> 'p::{linorder, zero} draw"
  assumes args: "main_args argv = Inr (t, c)" and wrap: "2 ^ 64 \<le> unat c * sizeof_Order"
    and alloc: "operator_new mem (unat (c * of_nat sizeof_Order))"
  shows "main_prog mem argv rng = Inr None"
proof -
  have "(MemoryPool_ctor mem c :: exn + 'p MemoryPool option) = Inr None"
    by (rule MemoryPool_ctor_wrap [OF wrap alloc])
  then have "(OrderBook_ctor mem c :: exn + 'p OrderBook option) = Inr None"
    by (simp add: OrderBook_ctor_def)
  then show ?thesis by (simp add: main_prog_def args main_model_def)
qed

theorem main_wrapping_capacity_witness:
  "main_args [''lob'', ''10'', ''1152921504606846976''] = Inr (10, 2 ^ 60) \<and>
   2 ^ 64 \<le> unat (2 ^ 60 :: size_t) * sizeof_Order \<and>
   operator_new PTRDIFF_MAX (unat ((2 ^ 60 :: size_t) * of_nat sizeof_Order)) \<and>
   main_prog PTRDIFF_MAX [''lob'', ''10'', ''1152921504606846976''] (\<lambda>_. (150 :: int, 10 :: u32, BUY, LIMIT)) = Inr None"
proof -
  have a: "main_args [''lob'', ''10'', ''1152921504606846976''] = Inr (10, 2 ^ 60)"
    by (simp add: main_args_def stoull_def is_space_def is_digit_def digit_val_def)
  have w: "2 ^ 64 \<le> unat (2 ^ 60 :: size_t) * sizeof_Order" by (simp add: sizeof_Order_def)
  have o: "operator_new PTRDIFF_MAX (unat ((2 ^ 60 :: size_t) * of_nat sizeof_Order))"
    by (simp add: operator_new_def PTRDIFF_MAX_def sizeof_Order_def)
  show ?thesis using a w o main_wrapping_capacity [OF a w o, of "\<lambda>_. (150 :: int, 10 :: u32, BUY, LIMIT)"] by blast
qed

end
