(* ===== verification/Cancellation.thy ===== *)
theory Cancellation
  imports Order_Book
begin

text \<open>
  \<open>OrderBook::cancelOrder\<close> (\<open>src/src/OrderBook.cpp\<close>): look the id up in the index,
  find the price level of the order's side, scan that level's deque for the first order
  with the id (\<open>erase_first_id\<close>), erase it, drop the id from the index, release the
  slot, decrement the counter and erase the level if it became empty.  The abstract
  cancellation \<open>acancel\<close> removes the orders of that id from a side.
\<close>

fun erase_first_id :: "'p OrderBook \<Rightarrow> u64 \<Rightarrow> slot list \<Rightarrow> slot list option option" where
  "erase_first_id b i [] = Some None"
| "erase_first_id b i (s # q) = do {
     od \<leftarrow> get_order b s;
     if order_id od = i then Some (Some q)
     else map_option (map_option (Cons s)) (erase_first_id b i q)
   }"

definition cancelOrder :: "u64 \<Rightarrow> 'p::linorder OrderBook \<Rightarrow> ('p OrderBook \<times> bool) option" where
  "cancelOrder i b =
     (case id_map b i of
        None \<Rightarrow> Some (b, False)
      | Some toCancel \<Rightarrow> do {
          od \<leftarrow> get_order b toCancel;
          let pr = price od;
          let sd = side od;
          (case lv_find pr (levels_of sd b) of
             None \<Rightarrow> Some (b, False)
           | Some queueAtPrice \<Rightarrow> do {
               r \<leftarrow> erase_first_id b i queueAtPrice;
               (case r of
                  None \<Rightarrow> Some (b, False)
                | Some q' \<Rightarrow> do {
                    let b1 = map_levels sd (lv_set pr q') b;
                    let b2 = b1\<lparr>id_map := (id_map b1)(i := None)\<rparr>;
                    let b3 = b2\<lparr>pool := deallocate (Some toCancel) (pool b2)\<rparr>;
                    let b4 = b3\<lparr>active_orders := active_orders b3 - 1\<rparr>;
                    Some (if q' = [] then map_levels sd (lv_erase pr) b4 else b4, True)
                  })
             })
        })"


definition acancel :: "u64 \<Rightarrow> 'p Order list \<Rightarrow> 'p Order list" where
  "acancel i os = filter (\<lambda>r. order_id r \<noteq> i) os"

text \<open>
  The reference for the deque scan: the list without its first element satisfying
  \<open>P\<close>, or \<open>None\<close> when there is none.
\<close>

definition erase_first_ref :: "('a \<Rightarrow> bool) \<Rightarrow> 'a list \<Rightarrow> 'a list option" where
  "erase_first_ref P q =
     (case dropWhile (\<lambda>x. \<not> P x) q of
        [] \<Rightarrow> None
      | _ # ys \<Rightarrow> Some (takeWhile (\<lambda>x. \<not> P x) q @ ys))"

lemma erase_first_ref_Nil [simp]: "erase_first_ref P [] = None"
  by (simp add: erase_first_ref_def)

lemma erase_first_ref_Cons [simp]:
  "erase_first_ref P (x # xs) = (if P x then Some xs else map_option (Cons x) (erase_first_ref P xs))"
  by (cases "dropWhile (\<lambda>x. \<not> P x) xs") (simp_all add: erase_first_ref_def del: dropWhile_eq_Nil_conv)

subsection \<open>The steps of a cancellation\<close>

text \<open>
  On a well-formed book every resting slot holds an order whose id indexes back to it, so
  the id looked up is carried by exactly one resting order; the scan finds it at its own
  price level, and removing it is an instance of \<open>book_wf_remove\<close>.
\<close>

lemma erase_first_id_unique:
  "\<forall>x \<in> set q. \<exists>ox. get_order b x = Some ox \<and> (order_id ox = i \<longleftrightarrow> x = s) \<Longrightarrow> s \<in> set q \<Longrightarrow>
   distinct q \<Longrightarrow> erase_first_id b i q = Some (Some (removeAll s q))"
  by (induction q) auto

lemma book_slots_removeAll:
  assumes d: "distinct (book_slots b)" and s: "s \<in> set (lv_slots (levels_of sd b))"
    and this_side: "lv_slots (levels_of sd b') = removeAll s (lv_slots (levels_of sd b))"
    and other: "levels_of (opposite sd) b' = levels_of (opposite sd) b"
  shows "set (book_slots b) = insert s (set (book_slots b'))"
    and "length (book_slots b) = Suc (length (book_slots b'))"
proof -
  have l: "length (removeAll s xs) = length xs - 1" if "distinct xs" "s \<in> set xs" for xs :: "slot list"
    using that by (simp add: distinct_remove1_removeAll [symmetric] length_remove1)
  have "length (lv_slots (levels_of sd b)) > 0" using s by (cases "lv_slots (levels_of sd b)") auto
  with d s this_side other show "set (book_slots b) = insert s (set (book_slots b'))"
    and "length (book_slots b) = Suc (length (book_slots b'))"
    by (cases sd; auto simp: book_slots_def l)+
qed

lemma map_orders_removeAll:
  assumes uniq: "\<And>x. x \<in> set xs \<Longrightarrow> \<exists>ox. H x = Some ox \<and> (order_id ox = i \<longleftrightarrow> x = s)"
  shows "map (\<lambda>x. the (H x)) (removeAll s xs) = filter (\<lambda>r. order_id r \<noteq> i) (map (\<lambda>x. the (H x)) xs)"
  using uniq
proof (induction xs)
  case (Cons x xs)
  then obtain ox where "H x = Some ox" "order_id ox = i \<longleftrightarrow> x = s" by fastforce
  with Cons show ?case by auto
qed simp

lemma cancel_found:
  assumes wf: "book_wf [] b" and im: "id_map b i = Some s"
  shows "\<exists>b'. cancelOrder i b = Some (b', True) \<and> book_wf [] b' \<and> id_map b' = (id_map b)(i := None) \<and>
              (\<forall>sd'. side_orders sd' b' = filter (\<lambda>r. order_id r \<noteq> i) (side_orders sd' b))"
proof -
  have sb: "s \<in> set (book_slots b)" and oi: "map_option order_id (get_order b s) = Some i"
    using wf im by (auto simp: book_wf_def)
  obtain sd k q od where kq: "(k, q) \<in> set (levels_of sd b)" "s \<in> set q" and g: "get_order b s = Some od"
    and sod: "side od = sd" "price od = k"
    using book_slot_order [OF wf sb] by blast
  have odi: "order_id od = i" using oi g by simp
  have sw: "side_wf sd' b" for sd' using wf by (cases sd') (simp_all add: book_wf_def)
  define L where "L = levels_of sd b"
  have uniq: "\<exists>ox. get_order b x = Some ox \<and> (order_id ox = i \<longleftrightarrow> x = s)" if x: "x \<in> set (book_slots b)" for x
  proof -
    obtain ox where "get_order b x = Some ox" "id_map b (order_id ox) = Some x"
      using book_slot_order [OF wf x] by blast
    then show ?thesis using im g odi by auto
  qed
  have dk: "distinct (map fst L)"
    using sw [of sd] sorted_strict_distinct [OF strict_total_side_cmp [of sd], of "map fst L"]
    by (simp add: side_wf_def L_def)
  have find: "lv_find k (levels_of sd b) = Some q" using dk kq by (simp add: lv_find_def L_def)
  have dq: "distinct q" using kq distinct_side_slots [OF wf, of sd] lv_queue_distinct by auto
  have erase: "erase_first_id b i q = Some (Some (removeAll s q))"
    using uniq slot_in_book [OF kq(1)] kq(2) dq by (intro erase_first_id_unique) auto
  define q' where "q' = removeAll s q"
  define b4 where "b4 = (map_levels sd (lv_set k q') b)\<lparr>id_map := (id_map b)(i := None),
      pool := deallocate (Some s) (pool b), active_orders := active_orders b - 1\<rparr>"
  define b' where "b' = (if q' = [] then map_levels sd (lv_erase k) b4 else b4)"
  have c: "cancelOrder i b = Some (b', True)"
    by (simp add: cancelOrder_def im g sod find erase Let_def b'_def b4_def q'_def)
  have lv': "levels_of sd' b' =
      (if sd' = sd then (if q' = [] then lv_erase k (lv_set k q' L) else lv_set k q' L) else levels_of sd' b)" for sd'
    by (simp add: b'_def b4_def L_def)
  have g': "get_order b' = get_order b" by (simp add: b'_def b4_def get_order_def fun_eq_iff)
  have im': "id_map b' = (id_map b)(i := None)" by (simp add: b'_def b4_def)
  have qc: "\<forall>(k', q'') \<in> set L. (k' = k \<longrightarrow> q'' = q) \<and> (k' \<noteq> k \<longrightarrow> s \<notin> set q'')"
  proof (intro ballI, clarify, intro conjI impI)
    fix k' q'' assume m: "(k', q'') \<in> set L"
    show "k' = k \<Longrightarrow> q'' = q" using eq_key_imp_eq_value [OF dk] m kq(1) by (simp add: L_def)
    show "s \<notin> set q''" if "k' \<noteq> k"
    proof
      assume "s \<in> set q''"
      then have "resting_ok b sd k' s" using sw [of sd] m by (simp add: L_def side_wf_slot)
      then show False using g sod that by (simp add: resting_ok_def)
    qed
  qed
  have sl: "lv_slots (levels_of sd b') = removeAll s (lv_slots L)"
  proof -
    have "lv_slots (lv_set k q' L) = removeAll s (lv_slots L)" using qc by (simp add: q'_def lv_slots_lv_set)
    moreover have "lv_slots (lv_erase k (lv_set k q' L)) = lv_slots (lv_set k q' L)" if "q' = []"
      using that by (intro lv_slots_lv_erase) (auto dest: lv_set_mem)
    ultimately show ?thesis by (cases "q' = []") (simp_all add: lv')
  qed
  have sL: "s \<in> set (lv_slots L)" using kq by (force simp: L_def lv_slots_def)
  have wf': "book_wf [] b'"
  proof (rule book_wf_remove [OF wf im g' im'])
    have "distinct (book_slots b)" using book_wf_distinct [OF wf] by simp
    note bs = book_slots_removeAll [OF this sL [unfolded L_def] sl [unfolded L_def]]
    show "set (book_slots b) = insert s (set (book_slots b'))"
      and "length (book_slots b) = Suc (length (book_slots b'))"
      using bs lv' [of "opposite sd"] by simp_all
    show "q'' \<noteq> [] \<and> (\<exists>q0. (k', q0) \<in> set (levels_of sd' b) \<and> set q'' \<subseteq> set q0)"
      if mem: "(k', q'') \<in> set (levels_of sd' b')" for sd' k' q''
    proof (cases "sd' = sd")
      case True
      with mem have m: "(k', q'') \<in> set (lv_set k q' L)" and e: "q' = [] \<Longrightarrow> k' \<noteq> k"
        by (auto simp: lv' split: if_splits)
      from lv_set_mem [OF m] show ?thesis
      proof
        assume "k' = k \<and> q'' = q'"
        then show ?thesis using e kq True by (auto simp: q'_def L_def)
      next
        assume "k' \<noteq> k \<and> (k', q'') \<in> set L"
        then show ?thesis using sw [of sd] True by (auto simp: side_wf_def L_def)
      qed
    next
      case False
      then show ?thesis using mem sw [of sd'] by (auto simp: lv' side_wf_def)
    qed
    show "sorted_wrt (side_cmp sd') (map fst (levels_of sd' b'))" for sd'
      using sw [of sd'] by (auto simp: lv' side_wf_def L_def intro: sorted_lv_erase)
  qed (simp_all add: b'_def b4_def)
  have so: "side_orders sd' b' = filter (\<lambda>r. order_id r \<noteq> i) (side_orders sd' b)" for sd'
  proof -
    have "lv_slots (levels_of sd' b') = removeAll s (lv_slots (levels_of sd' b))"
    proof (cases "sd' = sd")
      case False
      then have "sd' = opposite sd" by (cases sd; cases sd') simp_all
      then have "s \<notin> set (lv_slots (levels_of sd' b))" using sides_disjoint [OF wf, of sd] sL by (auto simp: L_def)
      then show ?thesis using False by (simp add: lv')
    qed (simp add: sl L_def)
    moreover have "map (\<lambda>x. the (get_order b x)) (removeAll s (lv_slots (levels_of sd' b))) =
        filter (\<lambda>r. order_id r \<noteq> i) (map (\<lambda>x. the (get_order b x)) (lv_slots (levels_of sd' b)))"
      using uniq slots_side_book by (intro map_orders_removeAll) blast
    ultimately show ?thesis using g' by (simp add: side_orders_def)
  qed
  show ?thesis using c wf' im' so by blast
qed

lemma no_resting_id:
  assumes wf: "book_wf xs b" and im: "id_map b i = None"
  shows "side_orders sd b = acancel i (side_orders sd b)"
proof -
  have "order_id (the (get_order b x)) \<noteq> i" if "x \<in> set (lv_slots (levels_of sd b))" for x
  proof -
    have "x \<in> set (book_slots b)" using that slots_side_book by blast
    then obtain ox where "get_order b x = Some ox" "id_map b (order_id ox) = Some x"
      using book_slot_order [OF wf] by blast
    then show ?thesis using im by auto
  qed
  then show ?thesis by (auto simp: side_orders_def acancel_def filter_id_conv)
qed

lemma cancel_missing: "id_map b i = None \<Longrightarrow> cancelOrder i b = Some (b, False)"
  by (simp add: cancelOrder_def)

lemma cancelOrder_wf:
  assumes "book_wf [] b" and "cancelOrder i b = Some (b', r)"
  shows "book_wf [] b'"
proof (cases "id_map b i")
  case None
  then show ?thesis using assms cancel_missing [OF None] by simp
next
  case (Some s)
  then show ?thesis using assms cancel_found [OF assms(1) Some] by auto
qed

text \<open>On a well-formed book cancellation is defined and acts on both sides as \<open>acancel\<close>.\<close>

lemma cancelOrder_defined: "book_wf [] b \<Longrightarrow> \<exists>b' r. cancelOrder i b = Some (b', r)"
  using cancel_found cancel_missing by (cases "id_map b i") blast+

lemma cancel_sides:
  assumes "book_wf [] b" and "cancelOrder i b = Some (b', r)"
  shows "side_orders sd b' = acancel i (side_orders sd b)"
proof (cases "id_map b i")
  case None
  then show ?thesis using assms cancel_missing [OF None] no_resting_id [OF assms(1) None] by simp
next
  case (Some s)
  then show ?thesis using assms cancel_found [OF assms(1) Some] by (auto simp: acancel_def)
qed

lemma acancel_id: "acancel i xs = xs \<longleftrightarrow> i \<notin> set (map order_id xs)"
  by (auto simp: acancel_def filter_id_conv)

lemma acancel_ains:
  "order_id od = i \<Longrightarrow> acancel i xs = xs \<Longrightarrow> acancel i (ains lt od xs) = xs"
proof -
  assume i: "order_id od = i" and x: "acancel i xs = xs"
  from x have "\<forall>r \<in> set xs. order_id r \<noteq> i" by (auto simp: acancel_id)
  then show ?thesis using i by (induction xs) (auto simp: acancel_def filter_id_conv)
qed

subsection \<open>Properties of cancellation\<close>

text \<open>
  C3: on a well-formed book, \<open>cancelOrder(id)\<close> is defined, keeps the invariant, returns
  whether the id was resting, drops the id from the index, and removes exactly the orders
  of that id from both sides, leaving the priority order of the others unchanged.
\<close>

theorem cancelOrder_refines:
  assumes "book_wf [] b"
  shows "\<exists>b'. cancelOrder i b = Some (b', id_map b i \<noteq> None) \<and> book_wf [] b' \<and>
              id_map b' = (id_map b)(i := None) \<and>
              side_orders BUY b' = acancel i (side_orders BUY b) \<and> side_orders SELL b' = acancel i (side_orders SELL b)"
proof (cases "id_map b i")
  case None
  then show ?thesis using cancel_missing [OF None] assms no_resting_id [OF assms None]
    by (simp add: fun_upd_idem)
next
  case (Some s)
  then show ?thesis using cancel_found [OF assms Some] by (auto simp: acancel_def)
qed

theorem cancelOrder_refines_witness:
  "book_wf [] ex_rest \<and> id_map ex_rest 1 \<noteq> None \<and> acancel 1 (side_orders SELL ex_rest) = [] \<and>
   (\<exists>b'. cancelOrder 1 ex_rest = Some (b', id_map ex_rest 1 \<noteq> None) \<and> book_wf [] b' \<and>
      id_map b' = (id_map ex_rest)(1 := None) \<and>
      side_orders BUY b' = acancel 1 (side_orders BUY ex_rest) \<and>
      side_orders SELL b' = acancel 1 (side_orders SELL ex_rest))"
proof -
  have "id_map ex_rest 1 \<noteq> None" "acancel 1 (side_orders SELL ex_rest) = []"
    by (simp_all add: ex_rest_def ex_book_def acancel_def side_orders_def get_order_def ex_sell_def)
  then show ?thesis using ex_rest_wf cancelOrder_refines [OF ex_rest_wf, of 1] by blast
qed

text \<open>
  C9: cancelling twice: after a cancellation of an id on a well-formed book, a second
  cancellation of the same id reports failure and leaves the book unchanged.
\<close>

theorem cancelOrder_twice:
  assumes "book_wf [] b" and "cancelOrder i b = Some (b', r)"
  shows "cancelOrder i b' = Some (b', False)"
proof (cases "id_map b i")
  case None
  then show ?thesis using cancel_missing [OF None] assms(2) by simp
next
  case (Some s)
  then show ?thesis using cancel_found [OF assms(1) Some] assms(2) cancel_missing [of b' i] by auto
qed

theorem cancelOrder_twice_witness:
  "\<exists>b'. book_wf [] ex_rest \<and> cancelOrder 1 ex_rest = Some (b', True) \<and> cancelOrder 1 b' = Some (b', False)"
proof -
  have "id_map ex_rest 1 = Some 1" by (simp add: ex_rest_def ex_book_def)
  then obtain b' where c: "cancelOrder 1 ex_rest = Some (b', True)"
    using cancel_found [OF ex_rest_wf] by blast
  show ?thesis using ex_rest_wf c cancelOrder_twice [OF ex_rest_wf c] by blast
qed

text \<open>
  C12: the scan of \<open>cancelOrder\<close> over a deque whose slots all hold constructed orders
  (\<open>for (qIt ...) if ((*qIt)->id == id) erase\<close>) is the reference \<open>erase_first_ref\<close>:
  it removes the first order with the id and keeps the others in order, or reports that
  there is none.
\<close>

theorem erase_first_id_equiv:
  assumes "\<forall>s \<in> set q. get_order b s \<noteq> None"
  shows "erase_first_id b i q = Some (erase_first_ref (\<lambda>s. order_id (the (get_order b s)) = i) q)"
  using assms by (induction q) auto

theorem erase_first_id_equiv_witness:
  "get_order ex_rest 1 \<noteq> None \<and>
   erase_first_id ex_rest 1 [1] = Some (erase_first_ref (\<lambda>s. order_id (the (get_order ex_rest s)) = 1) [1]) \<and>
   erase_first_ref (\<lambda>s. order_id (the (get_order ex_rest s)) = 1) [1] = Some []"
proof -
  have g: "get_order ex_rest 1 = Some ex_sell" by (simp add: get_order_def ex_rest_def ex_book_def deallocate_def)
  then have h: "\<forall>s \<in> set [1]. get_order ex_rest s \<noteq> None" by simp
  moreover have "erase_first_ref (\<lambda>s. order_id (the (get_order ex_rest s)) = 1) [1] = Some []"
    using g by (simp add: ex_sell_def)
  ultimately show ?thesis using g erase_first_id_equiv [OF h, of 1] by simp
qed

end
