(* ===== verification/Book_Interface.thy ===== *)
theory Book_Interface
  imports Entry_Point Cancellation
begin

text \<open>
  The public interface of \<open>class OrderBook\<close> (\<open>src/src/OrderBook.h\<close>): \<open>processOrder\<close>,
  \<open>cancelOrder\<close> and \<open>totalActiveOrders\<close>, as a datatype of calls with their replies and
  one step function \<open>book_call\<close>, and a client's sequence of calls as \<open>run_calls\<close>.
  The theory also proves that no operation changes the pool's capacity or
  \<open>max_orders_\<close>, so the count of active orders that any sequence of calls observes, and
  the count \<open>main\<close> prints, never exceed the capacity given to the constructor.
\<close>

datatype 'p book_op =
    ProcessOrder u64 u64 'p u32 side order_type
  | CancelOrder u64
  | TotalActiveOrders

datatype 'p book_reply = Fills "'p Fill list" | Cancelled bool | Active size_t

fun book_call :: "'p::linorder book_op \<Rightarrow> 'p OrderBook \<Rightarrow> ('p OrderBook \<times> 'p book_reply) option" where
  "book_call (ProcessOrder i ts pr qty sd ty) b =
     map_option (\<lambda>(b', fs). (b', Fills fs)) (processOrder i ts pr qty sd ty b)"
| "book_call (CancelOrder i) b = map_option (\<lambda>(b', r). (b', Cancelled r)) (cancelOrder i b)"
| "book_call TotalActiveOrders b = Some (b, Active (totalActiveOrders b))"

fun run_calls :: "'p::linorder book_op list \<Rightarrow> 'p OrderBook \<Rightarrow> ('p OrderBook \<times> 'p book_reply list) option" where
  "run_calls [] b = Some (b, [])"
| "run_calls (c # cs) b = do {
     (b1, r) \<leftarrow> book_call c b;
     (b2, rs) \<leftarrow> run_calls cs b1;
     Some (b2, r # rs)
   }"

text \<open>
  The spec's precondition on a sequence of calls (section 6): the id of each submission
  is not in use when it is submitted, judged along the run (a call with undefined
  behaviour ends the run, and imposes nothing on the calls after it).
\<close>

fun ids_fresh :: "'p::linorder book_op list \<Rightarrow> 'p OrderBook \<Rightarrow> bool" where
  "ids_fresh [] b = True"
| "ids_fresh (c # cs) b =
     ((case c of ProcessOrder i ts pr qty sd ty \<Rightarrow> id_map b i = None | _ \<Rightarrow> True) \<and>
      (case book_call c b of None \<Rightarrow> True | Some (b1, r) \<Rightarrow> ids_fresh cs b1))"

fun active_le :: "size_t \<Rightarrow> 'p book_reply \<Rightarrow> bool" where
  "active_le cap (Active n) = (n \<le> cap)"
| "active_le cap _ = True"

subsection \<open>The capacity is fixed\<close>

lemma frame_cap [simp]:
  "capacity (pool (set_quantity x v b)) = capacity (pool b)"
  "max_orders (set_quantity x v b) = max_orders b"
  "capacity (pool (retire_front ls rid r b)) = capacity (pool b)"
  "max_orders (map_levels sd f b) = max_orders b"
  "max_orders (retire_front ls rid r b) = max_orders b"
  "capacity (construct_order s od p) = capacity p"
proof -
  show "capacity (pool (set_quantity x v b)) = capacity (pool b)" "max_orders (set_quantity x v b) = max_orders b"
    by (simp_all add: set_quantity_def)
  show "capacity (pool (retire_front ls rid r b)) = capacity (pool b)" by simp
  show m: "max_orders (map_levels sd f b) = max_orders b" for sd f b by (cases sd) simp_all
  show "max_orders (retire_front ls rid r b) = max_orders b" by (simp add: retire_front_def Let_def m)
  show "capacity (construct_order s od p) = capacity p" by (simp add: construct_order_def)
qed

lemma match_step_cap:
  assumes m: "match_step g sd inc fs b = Some r" and r: "r = Inl (b', fs') \<or> r = Inr (b', fs')"
  shows "capacity (pool b') = capacity (pool b) \<and> max_orders b' = max_orders b"
proof -
  obtain io where io: "get_order b inc = Some io"
    using m by (cases "get_order b inc") (simp_all add: match_step_def)
  show ?thesis
  proof (cases "0 < quantity io \<and> levels_of (opposite sd) b \<noteq> []")
    case False
    then show ?thesis using m r io by (auto simp: match_step_def)
  next
    case True
    then obtain bp q lv where lv: "levels_of (opposite sd) b = (bp, q) # lv"
      by (cases "levels_of (opposite sd) b") auto
    show ?thesis
    proof (cases "g \<and> price_blocks sd (price io) bp")
      case gate: True
      then show ?thesis using m r io lv True by (auto simp: match_step_def)
    next
      case gate: False
      obtain rs q' where q: "q = rs # q'"
        using m io lv True gate by (cases q) (simp_all add: match_step_def)
      obtain ro where ro: "get_order b rs = Some ro"
        using m io lv True gate q by (cases "get_order b rs") (simp_all add: match_step_def)
      show ?thesis using m r io lv True gate q ro
        by (auto simp: match_step_def Let_def split: if_split_asm option.split_asm)
    qed
  qed
qed

text \<open>The matching loop, by fixpoint induction over its \<open>partial_function\<close> definition.\<close>

lemma match_loop_cap:
  assumes "match_loop g sd inc fs b = Some r"
  shows "capacity (pool (fst r)) = capacity (pool b) \<and> max_orders (fst r) = max_orders b"
proof (rule match_loop.raw_induct
    [where P = "\<lambda>g sd inc fs b r. capacity (pool (fst r)) = capacity (pool b) \<and> max_orders (fst r) = max_orders b",
     OF _ assms])
  fix loop :: "bool \<Rightarrow> side \<Rightarrow> slot \<Rightarrow> 'a Fill list \<Rightarrow> 'a OrderBook \<Rightarrow> ('a OrderBook \<times> 'a Fill list) option"
    and g sd inc fs b r
  assume IH: "\<And>g sd inc fs b r. loop g sd inc fs b = Some r \<Longrightarrow>
      capacity (pool (fst r)) = capacity (pool b) \<and> max_orders (fst r) = max_orders b"
    and st: "(case match_step g sd inc fs b of None \<Rightarrow> None | Some (Inl r) \<Rightarrow> Some r
             | Some (Inr (b', fills')) \<Rightarrow> loop g sd inc fills' b') = Some r"
  show "capacity (pool (fst r)) = capacity (pool b) \<and> max_orders (fst r) = max_orders b"
  proof (cases "match_step g sd inc fs b")
    case (Some x)
    show ?thesis
    proof (cases x)
      case (Inl y)
      then show ?thesis using st Some match_step_cap [OF Some, of "fst y" "snd y"] by simp
    next
      case (Inr y)
      obtain b' fs' where y: "y = (b', fs')" by fastforce
      then have "loop g sd inc fs' b' = Some r" using st Some Inr by simp
      then show ?thesis using IH match_step_cap [OF Some, of b' fs'] Inr y by fastforce
    qed
  qed (use st in simp)
qed

lemma allocate_cap: "allocate p = (p1, x) \<Longrightarrow> capacity p1 = capacity p"
  using pool_ops_heap(3) [of p] by simp

lemma processOrder_cap:
  assumes "processOrder i ts pr qty sd ty b = Some (b', fs)"
  shows "capacity (pool b') = capacity (pool b) \<and> max_orders b' = max_orders b"
proof -
  obtain p1 x where al: "allocate (pool b) = (p1, x)" by fastforce
  have c1: "capacity p1 = capacity (pool b)" using allocate_cap [OF al] .
  show ?thesis
  proof (cases x)
    case None
    then show ?thesis using assms al c1 by (auto simp: processOrder_def)
  next
    case (Some inc)
    let ?b1 = "b\<lparr>pool := construct_order inc (make_Order i ts pr qty sd ty) p1\<rparr>"
    obtain b2 fs2 where m: "(if ty = MARKET then matchMarketOrder inc [] ?b1 else matchLimitOrder inc [] ?b1) = Some (b2, fs2)"
      and rest: "(do { io \<leftarrow> get_order b2 inc;
                  if otype io = LIMIT \<and> 0 < quantity io then do {
                    b3 \<leftarrow> addToBook inc b2; io3 \<leftarrow> get_order b3 inc;
                    Some (b3\<lparr>id_map := (id_map b3)(order_id io3 \<mapsto> inc), active_orders := active_orders b3 + 1\<rparr>, fs2) }
                  else Some (b2\<lparr>pool := deallocate (Some inc) (pool b2)\<rparr>, fs2) }) = Some (b', fs)"
      using assms al Some by (auto simp: processOrder_def Let_def bind_eq_Some_conv)
    obtain io where "get_order ?b1 inc = Some io" and "match_loop (ty = LIMIT) (side io) inc [] ?b1 = Some (b2, fs2)"
      using m by (cases ty) (auto simp: matchMarketOrder_def matchLimitOrder_def bind_eq_Some_conv)
    then have c2: "capacity (pool b2) = capacity (pool b) \<and> max_orders b2 = max_orders b"
      using match_loop_cap [of "ty = LIMIT" "side io" inc "[]" ?b1 "(b2, fs2)"] c1 by simp
    show ?thesis using rest c2
      by (auto simp: addToBook_def bind_eq_Some_conv split: if_split_asm side.splits)
  qed
qed

lemma cancelOrder_cap:
  assumes "cancelOrder i b = Some (b', r)"
  shows "capacity (pool b') = capacity (pool b) \<and> max_orders b' = max_orders b"
proof (cases "id_map b i")
  case None
  then show ?thesis using assms by (auto simp: cancelOrder_def)
next
  case (Some s)
  obtain od where od: "get_order b s = Some od"
    using assms Some by (cases "get_order b s") (simp_all add: cancelOrder_def)
  show ?thesis
  proof (cases "lv_find (price od) (levels_of (side od) b)")
    case None
    then show ?thesis using assms Some od by (auto simp: cancelOrder_def)
  next
    case lv: (Some q)
    obtain e where e: "erase_first_id b i q = Some e"
      using assms Some od lv by (cases "erase_first_id b i q") (simp_all add: cancelOrder_def)
    show ?thesis
    proof (cases e)
      case None
      then show ?thesis using assms Some od lv e by (auto simp: cancelOrder_def)
    next
      case (Some q')
      then show ?thesis using assms \<open>id_map b i = Some s\<close> od lv e
        by (cases "q' = []") (auto simp: cancelOrder_def Let_def)
    qed
  qed
qed

lemma book_call_cap:
  "book_call c b = Some (b', r) \<Longrightarrow> capacity (pool b') = capacity (pool b) \<and> max_orders b' = max_orders b"
  by (cases c) (auto dest: processOrder_cap cancelOrder_cap)

text \<open>On a well-formed book the active count is at most the capacity of the pool.\<close>

lemma active_le_capacity:
  "book_wf [] b \<Longrightarrow> totalActiveOrders b \<le> capacity (pool b)"
  using pool_inv_length [of "pool b" "book_slots b"]
  by (simp add: book_wf_def totalActiveOrders_def word_le_nat_alt)

lemma OrderBook_ctor_capacity: "OrderBook_ctor mem cap = Inr (Some b) \<Longrightarrow> capacity (pool b) = cap"
  by (erule OrderBook_ctor_Some) (simp add: MemoryPool_ctor_inv)

lemma run_calls_inv:
  assumes "book_wf [] b" and "ids_fresh cs b"
  shows "\<exists>b' rs. run_calls cs b = Some (b', rs) \<and> book_wf [] b' \<and>
           capacity (pool b') = capacity (pool b) \<and> list_all (active_le (capacity (pool b))) rs"
  using assms
proof (induction cs arbitrary: b)
  case Nil
  then show ?case by simp
next
  case (Cons c cs)
  have "\<exists>b1 r. book_call c b = Some (b1, r) \<and> book_wf [] b1"
  proof (cases c)
    case (ProcessOrder i ts pr qty sd ty)
    then have "id_map b i = None" using Cons.prems(2) by simp
    from processOrder_wf [OF Cons.prems(1) this, of ts pr qty sd ty] show ?thesis
      using ProcessOrder by auto
  next
    case (CancelOrder i)
    obtain b1 r where "cancelOrder i b = Some (b1, r)" using cancelOrder_defined [OF Cons.prems(1)] by blast
    then show ?thesis using CancelOrder cancelOrder_wf [OF Cons.prems(1)] by auto
  next
    case TotalActiveOrders
    then show ?thesis using Cons.prems(1) by simp
  qed
  then obtain b1 r where bc: "book_call c b = Some (b1, r)" and wf1: "book_wf [] b1" by blast
  have fr: "ids_fresh cs b1" using Cons.prems(2) bc by simp
  have c1: "capacity (pool b1) = capacity (pool b)" using book_call_cap [OF bc] by simp
  have r: "active_le (capacity (pool b)) r"
    using bc active_le_capacity [OF Cons.prems(1)] by (cases c) auto
  from Cons.IH [OF wf1 fr] obtain b' rs where "run_calls cs b1 = Some (b', rs)" and "book_wf [] b'"
    and "capacity (pool b') = capacity (pool b1)" and "list_all (active_le (capacity (pool b1))) rs" by blast
  then show ?case using bc c1 r by simp
qed

subsection \<open>Properties of the interface\<close>

text \<open>
  C22: from the constructor, every sequence of calls in which each submitted id is not in
  use when submitted runs to its end without undefined behaviour, leaves a well-formed
  book, and every \<open>totalActiveOrders()\<close> it observes is at most the capacity given to
  the constructor (spec section 6: the id index and the counter stay consistent between
  calls, and the pool has a fixed capacity).
\<close>

theorem run_calls_bounded:
  assumes ctor: "OrderBook_ctor mem cap = Inr (Some b)" and fresh: "ids_fresh cs b"
  shows "\<exists>b' rs. run_calls cs b = Some (b', rs) \<and> book_wf [] b' \<and> list_all (active_le cap) rs"
  using run_calls_inv [OF conjunct1 [OF OrderBook_ctor_book_wf [OF ctor]] fresh]
    OrderBook_ctor_capacity [OF ctor] by auto

theorem run_calls_bounded_witness:
  "OrderBook_ctor PTRDIFF_MAX 3 = Inr (Some B3) \<and>
   ids_fresh [ProcessOrder 1 1 100 10 BUY LIMIT, TotalActiveOrders, CancelOrder 1, TotalActiveOrders] B3 \<and>
   run_calls [ProcessOrder 1 1 100 10 BUY LIMIT, TotalActiveOrders, CancelOrder 1, TotalActiveOrders] B3 =
     Some (fst (the (run_calls [ProcessOrder 1 1 100 10 BUY LIMIT, TotalActiveOrders, CancelOrder 1, TotalActiveOrders] B3)),
           [Fills [], Active 1, Cancelled True, Active 0]) \<and>
   active_le 3 (Active 1 :: int book_reply)"
proof -
  have f: "ids_fresh [ProcessOrder 1 1 100 10 BUY LIMIT, TotalActiveOrders, CancelOrder 1, TotalActiveOrders] B3"
    by code_simp
  have r: "run_calls [ProcessOrder 1 1 100 10 BUY LIMIT, TotalActiveOrders, CancelOrder 1, TotalActiveOrders] B3 \<noteq> None \<and>
      snd (the (run_calls [ProcessOrder 1 1 100 10 BUY LIMIT, TotalActiveOrders, CancelOrder 1, TotalActiveOrders] B3)) =
        [Fills [], Active 1, Cancelled True, Active 0]"
    by code_simp
  obtain b' rs where "run_calls [ProcessOrder 1 1 100 10 BUY LIMIT, TotalActiveOrders, CancelOrder 1, TotalActiveOrders] B3 = Some (b', rs)"
    using run_calls_bounded [OF OrderBook_ctor_3 f] by blast
  then show ?thesis using OrderBook_ctor_3 f r by simp
qed

lemma main_model_bounded:
  fixes draws :: "'p::{linorder, zero} draw list"
  assumes cap: "operator_new mem (unat c * sizeof_Order)" and len: "length draws < 2 ^ 64 - 1"
  shows "\<exists>n. main_model mem c draws = Inr (Some n) \<and> n \<le> c"
proof -
  obtain b :: "'p OrderBook" where ctor: "OrderBook_ctor mem c = Inr (Some b)"
    using OrderBook_ctor_fits [OF cap] by blast
  have wf: "book_wf [] b" and im: "id_map b = Map.empty" using OrderBook_ctor_book_wf [OF ctor] by blast+
  have ids: "\<forall>i \<in> dom (id_map b). unat i < unat (next_order_id (Simulator_ctor 12345))" by (simp add: im)
  have bnd: "unat (next_order_id (Simulator_ctor 12345)) + length draws < 2 ^ 64"
    using len by (simp add: Simulator_ctor_def)
  have "\<exists>s' b'. sim_run draws (Simulator_ctor 12345) b = Some (s', b') \<and> book_wf [] b' \<and>
      capacity (pool b') = c \<and> unat (next_order_id s') = unat (next_order_id (Simulator_ctor 12345)) + length draws"
    by (rule sim_run_inv [where I = "\<lambda>b'. capacity (pool b') = c", OF wf ids bnd OrderBook_ctor_capacity [OF ctor]])
      (auto dest: processOrder_cap)
  then obtain s' b' where "sim_run draws (Simulator_ctor 12345) b = Some (s', b')" and "book_wf [] b'"
    and "capacity (pool b') = c" by blast
  then show ?thesis using active_le_capacity [of b'] by (simp add: main_model_def ctor)
qed

text \<open>
  C23: when the arguments parse, the system provides the pool's block (whose size does
  not wrap) and fewer than \<open>2^64 - 1\<close> orders are requested, \<open>main\<close> prints a final count of active orders that is
  at most the pool capacity of its second argument, for every sequence of draws.
\<close>

theorem main_prog_count_bounded:
  fixes rng :: "nat \<Rightarrow> 'p::{linorder, zero} draw"
  assumes args: "main_args argv = Inr (t, c)"
    and cap: "operator_new mem (unat c * sizeof_Order)" and tot: "unat t < 2 ^ 64 - 1"
  shows "\<exists>n. main_prog mem argv rng = Inr (Some n) \<and> n \<le> c"
proof -
  have "length (map rng [0..<unat t]) < 2 ^ 64 - 1" using tot by simp
  then obtain n where "main_model mem c (map rng [0..<unat t]) = Inr (Some n)" and "n \<le> c"
    using main_model_bounded [OF cap] by blast
  then show ?thesis by (simp add: main_prog_def args)
qed

theorem main_prog_count_bounded_witness:
  "main_args [''lob'', ''5'', ''3''] = Inr (5, 3) \<and> operator_new PTRDIFF_MAX (unat (3 :: size_t) * sizeof_Order) \<and>
   unat (5 :: u64) < 2 ^ 64 - 1 \<and>
   (\<exists>n. main_prog PTRDIFF_MAX [''lob'', ''5'', ''3''] (\<lambda>_. (150 :: int, 10 :: u32, BUY, LIMIT)) = Inr (Some n) \<and> n \<le> 3)"
proof -
  have a: "main_args [''lob'', ''5'', ''3''] = Inr (5, 3)"
    by (simp add: main_args_def stoull_def is_space_def is_digit_def digit_val_def)
  have c: "operator_new PTRDIFF_MAX (unat (3 :: size_t) * sizeof_Order)"
    by (simp add: operator_new_def PTRDIFF_MAX_def sizeof_Order_def)
  have t: "unat (5 :: u64) < 2 ^ 64 - 1" by simp
  show ?thesis using a c t main_prog_count_bounded [OF a c t, of "\<lambda>_. (150 :: int, 10 :: u32, BUY, LIMIT)"] by blast
qed

end
