(* ===== verification/Spec2Isabelle.thy ===== *)
theory Spec2Isabelle
  imports Book_Interface
begin

text \<open>
  \<^bold>\<open>A verified model of the limit order book simulator.\<close>

  \<^bold>\<open>The program.\<close>  \<open>src/src/\<close> holds a single-threaded limit-order matching engine.
  \<open>MemoryPool\<close> (\<open>MemoryPool.h/.cpp\<close>) preallocates one block of \<open>Order\<close> slots with
  \<open>operator new[]\<close> and threads them on an intrusive free list (\<open>allocate\<close> pops,
  \<open>deallocate\<close> pushes).  \<open>Order\<close> (\<open>Order.h\<close>) is the plain order record.
  \<open>OrderBook\<close> (\<open>OrderBook.h/.cpp\<close>) owns the pool, the bid side (\<open>std::map\<close> from
  price to a \<open>std::deque<Order*>\<close>, ordered by \<open>std::greater\<close>), the ask side (ordered
  by \<open>std::less\<close>), an id index (\<open>std::unordered_map\<close> from id to \<open>Order*\<close>) and a
  counter of resting orders.  \<open>processOrder\<close> allocates a slot, constructs the order in
  it, runs \<open>matchLimitOrder\<close> or \<open>matchMarketOrder\<close> against the opposite side, and then
  rests a limit remainder (\<open>addToBook\<close>) or releases the slot; \<open>cancelOrder\<close> removes
  a resting order by id.  \<open>Simulator\<close> (\<open>Simulator.h/.cpp\<close>) feeds random orders with
  increasing ids and timestamps into \<open>processOrder\<close>; \<open>main\<close> parses its arguments,
  builds the book, runs the simulator and prints the final count; \<open>Benchmark\<close> times
  the run.

  \<^bold>\<open>The theories.\<close>
  \<^item> \<open>LOB_Prelude\<close>: the machine types (\<open>uint32_t\<close>, \<open>uint64_t\<close>, \<open>size_t\<close> as
    words), slots as pointers into the pool's block, the C++ exceptions the program can
    throw (\<open>exn\<close>), \<open>PTRDIFF_MAX\<close>, shared word, list and option lemmas.
  \<^item> \<open>Order_Record\<close>: \<open>Order::Side\<close>, \<open>Order::Type\<close>, \<open>struct Order\<close> and its constructor.
  \<^item> \<open>Memory_Pool\<close>: the pool as a record over a split heap (order fields and the
    \<open>next_free\<close> link per slot); \<open>operator_new\<close>, the constructor (\<open>MemoryPool_ctor\<close>
    with its loop \<open>ctor_loop\<close>, the byte size of the block computed in \<open>size_t\<close>),
    \<open>allocate\<close>, \<open>deallocate\<close> and the destructor.  The free list is related to a stack
    of slots by \<open>pool_abs\<close>; \<open>pool_inv\<close> says free and owned slots partition the block.
  \<^item> \<open>Price_Levels\<close>: a \<open>std::map<double, std::deque<Order*>, Cmp>\<close> as the association
    list of its nodes in iteration order, with the operations the book applies.
  \<^item> \<open>Book_State\<close>: \<open>Fill\<close>, the \<open>OrderBook\<close> record, heap accessors, the invariant
    \<open>book_wf\<close> and the abstract view \<open>side_orders\<close> of a side as its resting orders in
    price-time priority.
  \<^item> \<open>Matching\<close>: the loop body \<open>match_step\<close> shared by the four loops of
    \<open>matchLimitOrder\<close>/\<open>matchMarketOrder\<close> (they differ only in side and price gate), the
    loop \<open>match_loop\<close> as a \<open>partial_function (option)\<close>, and the abstract specification
    \<open>amatch\<close>: matching against the opposite side as one list in price-time priority.
  \<^item> \<open>Order_Book\<close>: the constructor \<open>OrderBook_ctor\<close>, \<open>addToBook\<close> (proved to be the
    priority insertion \<open>ains\<close>), \<open>totalActiveOrders\<close>, frame lemmas.
  \<^item> \<open>Submission\<close>: \<open>processOrder\<close> and the abstract submission \<open>asubmit\<close>.
  \<^item> \<open>Cancellation\<close>: \<open>cancelOrder\<close> with its deque scan \<open>erase_first_id\<close>, and the
    abstract cancellation \<open>acancel\<close>.
  \<^item> \<open>Benchmark\<close>: \<open>class Benchmark\<close> with the clock readings as arguments of
    \<open>start\<close> and \<open>stop\<close>, \<open>elapsedMilliseconds\<close>, and doubles as reals extended by the
    non-finite results of division (\<open>dbl\<close>, \<open>dbl_div\<close>).
  \<^item> \<open>Simulator\<close>: \<open>class Simulator\<close> in two layers.  \<open>sim_run\<close> is the loop over a
    list of draws (\<open>sim_step\<close> per iteration) and carries the invariants of a run;
    \<open>main_model\<close> is the body of \<open>main\<close> after argument parsing, over it.
    \<open>SimulatorObj\<close> adds the engine and the distributions behind the \<open><random>\<close>
    interface \<open>Random_lib\<close>; \<open>sim_draw\<close>, the \<open>u64\<close> loop \<open>run_loop\<close> and
    \<open>Simulator_run\<close> (with the timer and the printed report) are \<open>Simulator::run\<close>.
  \<^item> \<open>Entry_Point\<close>: \<open>main\<close> with its command line (\<open>main_args\<close>, and \<open>main_prog\<close>
    over a function giving the generator's draws); \<open>std::stoull\<close> is modelled after
    \<open>strtoull\<close> in base 10, with its two exceptions as \<open>Inl\<close> values.
  \<^item> \<open>Book_Interface\<close>: the public interface of \<open>OrderBook.h\<close> as a datatype of calls
    \<open>book_op\<close> with replies \<open>book_reply\<close> and the step \<open>book_call\<close>, a client's call
    sequence \<open>run_calls\<close>, and the frame lemmas that no operation changes the pool's
    capacity (the matching loop by fixpoint induction on its \<open>partial_function\<close>).
  \<^item> this theory: the books reachable from the constructor (\<open>reachable\<close>), and the
    properties that combine submission and cancellation.

  \<^bold>\<open>Modelling choices.\<close>  Every dereference reads the pool's heap at the slot and every
  field write updates it, in the order of the source, so aliasing between the incoming
  and a resting order would behave as in C++.  A result \<open>exn + 'a option\<close> separates
  the three outcomes of a call: \<open>Inl e\<close> is an uncaught exception, \<open>Inr None\<close> undefined
  behaviour (reading a slot never constructed, \<open>front()\<close> of an empty deque, writing
  past the pool's block, a loop that never stops) and \<open>Inr (Some x)\<close> a result; the core
  operations cannot throw and return \<open>'a option\<close>.  \<open>operator new[]\<close> is the only
  allocation that can fail in the model: the system provides \<open>mem\<close> bytes, an argument
  of the constructors and of \<open>main_prog\<close>, and a request above \<open>mem\<close> or above
  \<open>PTRDIFF_MAX\<close> (no object is larger) throws \<open>std::bad_alloc\<close>.  The allocations of
  the standard containers are assumed to succeed.  \<open>sizeof(Order)\<close> is 48 (LP64).
  Prices are any linear order: the model does not cover NaN prices.  No fuel is used:
  the matching loop is a \<open>partial_function (option)\<close> and its termination on
  well-formed books is part of C1, proved by induction on the opposite side's resting
  orders; every other loop is structural recursion over a list, except \<open>run_loop\<close>,
  whose \<open>u64\<close> counter terminates by the measure \<open>total_orders - i\<close>.  The random engine
  is an interface with an abstract state: theorems hold for every engine and seed, and
  those about ranges assume only the distributions' range contract
  (\<open>random_lib_ok\<close>).  Clock readings are arguments, in nanoseconds.

  \<^bold>\<open>What is proved.\<close>  The invariant \<open>book_wf\<close> holds between calls; on such books:
  \<^item> Refinement.  C1 (\<open>Matching.match_loop_refines\<close>): the matching loop refines
    \<open>amatch\<close>, terminates, keeps the invariant and leaves the incoming order's own side
    alone.  C2 (\<open>Submission.processOrder_refines\<close>): \<open>processOrder\<close> with a fresh id
    refines \<open>asubmit\<close> (an exhausted pool rejects the order).  C3
    (\<open>Cancellation.cancelOrder_refines\<close>): \<open>cancelOrder\<close> refines \<open>acancel\<close>.  C4
    (\<open>Memory_Pool.pool_stack_refinement\<close>): the free list refines a stack.
  \<^item> The pool.  C5 (\<open>deallocate_double_free\<close>): a double free corrupts the free list.
    C6 (\<open>MemoryPool_ctor_outcome\<close>): the constructor throws \<open>std::bad_alloc\<close> exactly
    when \<open>operator new[]\<close> refuses the (wrapped) byte size, has undefined behaviour
    exactly when that size is provided but \<open>capacity * sizeof(Order)\<close> wraps in
    \<open>size_t\<close> (a code bug), and returns a pool otherwise.  C11
    (\<open>allocate_deallocate_roundtrip\<close>): releasing the slot just allocated restores the
    pool.
  \<^item> Invariants.  C7 (\<open>Order_Book.OrderBook_ctor_wf\<close>): a constructed book is empty
    and well-formed.  C8 (\<open>totalActiveOrders_count\<close>): the counter equals the number of
    resting orders and the size of the index.  C10 (\<open>reachable_wf\<close>): every book
    reachable by submissions with fresh ids and cancellations is well-formed and both
    operations are defined on it.
  \<^item> Behaviour.  C9 (\<open>cancelOrder_twice\<close>): a second cancellation returns false.  C14
    (\<open>submit_cancel_roundtrip\<close>): cancelling a just-submitted order restores its side.
    C18 (\<open>addToBook_priority\<close>): price-time priority (FIFO at equal prices).  C19
    (\<open>processOrder_fills\<close>): fills are positive, never overfill and respect the limit
    price.
  \<^item> Equivalence and termination.  C12 (\<open>erase_first_id_equiv\<close>): the deque scan of
    \<open>cancelOrder\<close> is the reference \<open>erase_first_ref\<close>.  C13 (\<open>match_step_variant\<close>):
    each continuing iteration of the matching loop decreases \<open>loop_measure\<close>.
  \<^item> Errors.  C15 (\<open>core_error_paths\<close>): unknown cancel id and exhausted pool are
    recoverable and change nothing (spec section 7).  C16 (\<open>main_prog_parse_error\<close>): a
    malformed argument ends \<open>main\<close> with \<open>std::stoull\<close>'s exception.  C17
    (\<open>Entry_Point.main_wrapping_capacity\<close>): a capacity argument whose block size wraps
    to a size the system provides gives undefined behaviour in \<open>main\<close>.
  \<^item> The simulator.  C20 (\<open>Simulator.Simulator_run_in_range\<close>): \<open>Simulator::run\<close>
    returns, and afterwards every resting order has a price in [100, 200] and a
    quantity in [1, 1000]; the dummy price of market orders never rests.  C21
    (\<open>Simulator.Simulator_run_report\<close>): the printed throughput is infinite when both
    clock readings are equal and NaN when no order was requested.
  \<^item> Bounds.  C22 (\<open>Book_Interface.run_calls_bounded\<close>): from the constructor, every
    call sequence whose submitted ids are fresh runs to its end on well-formed books and
    never observes more active orders than the capacity.  C23
    (\<open>Book_Interface.main_prog_count_bounded\<close>): when its arguments parse, the block is
    provided and fewer than \<open>2^64 - 1\<close> orders are requested (so that ids stay fresh),
    \<open>main\<close> returns and prints a count at most its pool capacity, for every seed.

  \<^bold>\<open>Not modelled.\<close>  The algorithm of \<open>std::mt19937_64\<close> and the sampling of the
  distributions (library code; only their range contract is used), the rounding of
  doubles (the reported milliseconds and throughput are their real values), the
  allocations of the standard containers, and the console output of
  \<open>Simulator::run\<close> and \<open>main\<close> (I/O: the model returns the printed values).  The
  pool destructor is modelled as freeing the block and clearing the free list.
  Reusing an id that is still resting is left open by the spec; the model computes what
  the code does (the index entry is overwritten) but no property is claimed of it.
\<close>

inductive reachable :: "'p::linorder OrderBook \<Rightarrow> bool" where
  init: "OrderBook_ctor mem n = Inr (Some b) \<Longrightarrow> reachable b"
| submit: "reachable b \<Longrightarrow> id_map b i = None \<Longrightarrow> processOrder i ts pr qty sd ty b = Some (b', fs) \<Longrightarrow>
           reachable b'"
| cancel: "reachable b \<Longrightarrow> cancelOrder i b = Some (b', r) \<Longrightarrow> reachable b'"

subsection \<open>Runs from the constructor\<close>

text \<open>
  C10: every book reachable from the constructor by submissions with fresh ids and by
  cancellations is well-formed, cancellation of any id is defined on it, and submission of
  any order with a fresh id is defined on it.
\<close>

theorem reachable_wf:
  assumes "reachable b"
  shows "book_wf [] b \<and> (\<forall>i. \<exists>r. cancelOrder i b = Some r) \<and>
         (\<forall>i ts pr qty sd ty. id_map b i = None \<longrightarrow> (\<exists>r. processOrder i ts pr qty sd ty b = Some r))"
proof -
  have wf: "book_wf [] b" using assms
  proof (induction rule: reachable.induct)
    case (init mem n b)
    then show ?case using OrderBook_ctor_book_wf by blast
  next
    case (submit b i ts pr qty sd ty b' fs)
    then show ?case using processOrder_wf [OF submit.IH submit.hyps(2), of ts pr qty sd ty] by auto
  next
    case (cancel b i b' r)
    then show ?case using cancelOrder_wf by blast
  qed
  moreover have "\<exists>r. cancelOrder i b = Some r" for i
    using cancelOrder_defined [OF wf] by blast
  moreover have "\<exists>r. processOrder i ts pr qty sd ty b = Some r" if "id_map b i = None" for i ts pr qty sd ty
    using processOrder_wf [OF wf that] by blast
  ultimately show ?thesis by blast
qed

theorem reachable_wf_witness:
  "reachable B3 \<and> book_wf [] B3 \<and> (\<exists>r. cancelOrder 1 B3 = Some r) \<and> id_map B3 1 = None \<and>
   (\<exists>r. processOrder 1 1 100 10 BUY LIMIT B3 = Some r)"
proof -
  have re: "reachable B3" by (rule reachable.init [OF OrderBook_ctor_3])
  have f: "id_map B3 1 = None" by (simp add: B3_def)
  show ?thesis using re f reachable_wf [OF re] by blast
qed

subsection \<open>Submitting and cancelling\<close>

text \<open>The rest of the opposite side after matching holds only orders that were there.\<close>

lemma amatch_rest_ids:
  "amatch ok iid q rs = (fs, q', rest) \<Longrightarrow> set (map order_id rest) \<subseteq> set (map order_id rs)"
proof (induction rs arbitrary: q fs q' rest)
  case (Cons r rs)
  then show ?case by (fastforce split: if_splits prod.splits)
qed simp

text \<open>
  C14: on a well-formed book, submitting an order with a fresh id and then cancelling that
  id restores the order's own side as it was before the submission (whether the
  remainder rested or not), and leaves the opposite side as the submission left it.
\<close>

theorem submit_cancel_roundtrip:
  assumes wf: "book_wf [] b" and fresh: "id_map b i = None"
    and p: "processOrder i ts pr qty sd ty b = Some (b1, fs)" and c: "cancelOrder i b1 = Some (b2, r)"
  shows "side_orders sd b2 = side_orders sd b \<and> side_orders (opposite sd) b2 = side_orders (opposite sd) b1"
proof (cases "free_list (pool b) = None")
  case True
  then have "b1 = b" using p processOrder_exhausted [OF True] by simp
  then show ?thesis using c cancel_missing [OF fresh] by simp
next
  case False
  obtain fills own' opp' where spec:
    "asubmit (make_Order i ts pr qty sd ty) (side_orders sd b) (side_orders (opposite sd) b) = (fills, own', opp')"
    by (metis prod_cases3)
  obtain q' where am: "amatch (gate_ok (ty = LIMIT) sd pr) i qty (side_orders (opposite sd) b) = (fills, q', opp')"
    and own: "own' = (if ty = LIMIT \<and> 0 < q' then ains (side_cmp sd) ((make_Order i ts pr qty sd ty)\<lparr>quantity := q'\<rparr>) (side_orders sd b) else side_orders sd b)"
    using spec by (auto simp: asubmit_def split: prod.splits)
  from processOrder_sim [OF wf False fresh spec] p
  have wf1: "book_wf [] b1" and s1: "side_orders sd b1 = own'" "side_orders (opposite sd) b1 = opp'" by auto
  have n0: "acancel i (side_orders sd' b) = side_orders sd' b" for sd' by (rule no_resting_id [OF wf fresh, symmetric])
  have "acancel i own' = side_orders sd b" using n0 [of sd] by (simp add: own acancel_ains)
  moreover have "acancel i opp' = opp'"
    using amatch_rest_ids [OF am] n0 [of "opposite sd"] by (auto simp: acancel_id)
  ultimately show ?thesis using cancel_sides [OF wf1 c] s1 by simp
qed

theorem submit_cancel_roundtrip_witness:
  "\<exists>b1 fs b2 r. book_wf [] B3 \<and> id_map B3 1 = None \<and>
     processOrder 1 1 100 10 BUY LIMIT B3 = Some (b1, fs) \<and> cancelOrder 1 b1 = Some (b2, r) \<and>
     side_orders BUY b2 = side_orders BUY B3 \<and> side_orders (opposite BUY) b2 = side_orders (opposite BUY) b1"
proof -
  have f: "id_map B3 1 = None" by (simp add: B3_def)
  obtain b1 fs where p: "processOrder 1 1 100 10 BUY LIMIT B3 = Some (b1, fs)" and wf1: "book_wf [] b1"
    using processOrder_wf [OF B3_wf f] by blast
  obtain b2 r where c: "cancelOrder 1 b1 = Some (b2, r)" using cancelOrder_defined [OF wf1] by blast
  show ?thesis using B3_wf f p c submit_cancel_roundtrip [OF B3_wf f p c] by blast
qed

subsection \<open>Error paths\<close>

text \<open>
  C15: the two recoverable errors of the core (spec section 7), on any book: cancelling an
  unknown id returns false and changes nothing; submitting when the pool has no free slot
  returns no fills and changes nothing, the order being dropped.
\<close>

theorem core_error_paths:
  "(id_map b i = None \<longrightarrow> cancelOrder i b = Some (b, False)) \<and>
   (free_list (pool b) = None \<longrightarrow> processOrder i ts pr qty sd ty b = Some (b, []))"
  using cancel_missing processOrder_exhausted by blast

theorem core_error_paths_witness:
  "id_map B3 5 = None \<and> cancelOrder 5 B3 = Some (B3, False) \<and>
   free_list (pool ex_book) = None \<and> processOrder 9 1 100 1 BUY LIMIT ex_book = Some (ex_book, [])"
proof -
  have a: "id_map B3 5 = None" by (simp add: B3_def)
  have b: "free_list (pool ex_book) = None" by (simp add: ex_book_def)
  show ?thesis using a b core_error_paths [of B3 5] core_error_paths [of ex_book 9 1 100 1 BUY LIMIT] by blast
qed

end
